theory Spec2Isabelle
  imports Main "HOL-Library.Word" "HOL-Library.Log_Nat" "HOL-Library.Multiset"
begin

unbundle bit_operations_syntax

section \<open>Strings and formatting borrowed from Go's standard library\<close>

text \<open>
  A Go string is a sequence of bytes; \<^typ>\<open>string\<close> is a list of bytes as well.
  The functions of this section are the pieces of Go's \<^verbatim>\<open>fmt\<close>, \<^verbatim>\<open>strings\<close> and
  \<^verbatim>\<open>path/filepath\<close> packages that \<^verbatim>\<open>node.go\<close> and the colour file call and whose
  results are fixed by their documentation.
\<close>

definition digit_char :: "nat \<Rightarrow> char" where
  "digit_char d = ''0123456789'' ! d"

fun show_nat :: "nat \<Rightarrow> string" where
  "show_nat n = (if n < 10 then [digit_char n] else show_nat (n div 10) @ [digit_char (n mod 10)])"

declare show_nat.simps [simp del]

definition show_int :: "int \<Rightarrow> string" where
  \<comment> \<open>the verb \<^verbatim>\<open>%d\<close>\<close>
  "show_int i = (if i < 0 then ''-'' @ show_nat (nat (- i)) else show_nat (nat i))"

definition is_digit :: "char \<Rightarrow> bool" where
  "is_digit c = (c \<in> set ''0123456789'')"

definition all_digits :: "string \<Rightarrow> bool" where
  "all_digits s = (s \<noteq> [] \<and> list_all is_digit s)"

definition round_half_even :: "int \<Rightarrow> int \<Rightarrow> int" where
  \<comment> \<open>the integer nearest to \<open>num / den\<close> (for \<open>0 \<le> num\<close>, \<open>0 < den\<close>), a tie going to
      the even one\<close>
  "round_half_even num den =
     (let q = num div den; r = num mod den
      in if den < 2 * r \<or> (2 * r = den \<and> odd q) then q + 1 else q)"

definition float64 :: "int \<Rightarrow> int" where
  \<comment> \<open>the conversion \<^verbatim>\<open>float64(i)\<close> of an \<^verbatim>\<open>int64\<close>: exact below \<open>2^53\<close>, otherwise
      rounded to 53 significant bits, ties to even. The result is an integer again.\<close>
  "float64 i =
     (let a = \<bar>i\<bar>
      in if a < 2 ^ 53 then i
         else let e = nat (bitlen a) - 53;
                  q = round_half_even a (2 ^ e)
              in sgn i * (q * 2 ^ e))"

definition Sprintf_f :: "nat \<Rightarrow> int \<Rightarrow> nat \<Rightarrow> string" where
  \<comment> \<open>\<^verbatim>\<open>fmt.Sprintf("%.<prec>f", x)\<close> for the double \<open>x = m / 2^k\<close>: the exact value
      rounded to \<open>prec\<close> decimals, ties to even, as \<^verbatim>\<open>strconv\<close> does.\<close>
  "Sprintf_f prec m k =
     (let t = round_half_even (\<bar>m\<bar> * 10 ^ prec) (2 ^ k);
          ip = show_nat (nat (t div 10 ^ prec));
          fs = show_nat (nat (t mod 10 ^ prec));
          fp = (if prec = 0 then '''' else ''.'' @ replicate (prec - length fs) (CHR ''0'') @ fs)
      in (if m < 0 then ''-'' else '''') @ ip @ fp)"

definition Trim :: "string \<Rightarrow> char \<Rightarrow> string" where
  \<comment> \<open>\<^verbatim>\<open>strings.Trim(s, cutset)\<close> for a cutset of one character\<close>
  "Trim s c = rev (dropWhile (\<lambda>x. x = c) (rev (dropWhile (\<lambda>x. x = c) s)))"

section \<open>The byte-size formatter\<close>

text \<open>
  \<^verbatim>\<open>formatBytes(i int64)\<close>. The double \<open>n\<close> of the source is kept as the pair of the
  integer \<open>float64 i\<close> and the exponent \<open>k\<close> of the power of two it was divided by: dividing a
  double by 1024 is exact, so \<open>n = float64 i / 2^k\<close>. \<open>sFmt\<close> is the precision of the verb.
\<close>

definition formatBytes :: "int \<Rightarrow> string" where
  "formatBytes i =
     (let (eFmt, k) =
            (if i > 1024 * 1024 * 1024 then (''G'', 30::nat)
             else if i > 1024 * 1024 then (''M'', 20)
             else if i > 1024 then (''K'', 10)
             else ('''', 0));
          sFmt = (if eFmt = '''' then 0 else 1::nat);
          sFmt = (if eFmt \<noteq> '''' \<and> 10 * 2 ^ k \<le> float64 i then 0 else sFmt)
      in Trim (Sprintf_f sFmt (float64 i) k @ eFmt) (CHR '' ''))"

text \<open>
  The spec's rendering rule, in its own words: one decimal place unless the scaled value is at
  least 10, then none. It is compared with \<open>formatBytes\<close> below.
\<close>

definition scaled_digits :: "int \<Rightarrow> nat \<Rightarrow> string" where
  "scaled_digits i k =
     (if 10 * 2 ^ k \<le> i then show_nat (nat (round_half_even (float64 i) (2 ^ k)))
      else (let t = round_half_even (i * 10) (2 ^ k)
            in show_nat (nat (t div 10)) @ ''.'' @ [digit_char (nat (t mod 10))]))"

section \<open>The data model of \<^verbatim>\<open>node.go\<close>\<close>

text \<open>
  \<^verbatim>\<open>os.FileInfo\<close> is an interface; a value of it is modelled by the results of its
  methods. \<open>Size\<close> is an \<^verbatim>\<open>int64\<close>, \<open>Mode\<close> an \<^verbatim>\<open>os.FileMode\<close> (32 bits), \<open>ModTime\<close>
  an opaque time stamp. \<open>Sys\<close> returns an empty interface, of which \<open>print\<close> only asks whether
  it holds a \<^verbatim>\<open>*syscall.Stat_t\<close>.
\<close>

record Stat_t =
  Ino :: "64 word"
  Dev :: "64 word"
  Uid :: "32 word"
  Gid :: "32 word"

datatype sys_value =
    Sys_Stat Stat_t    \<comment> \<open>a non-nil \<^verbatim>\<open>*syscall.Stat_t\<close>\<close>
  | Sys_nil_Stat       \<comment> \<open>a nil pointer of type \<^verbatim>\<open>*syscall.Stat_t\<close>\<close>
  | Sys_other          \<comment> \<open>the nil interface, or a value of any other type\<close>

record FileInfo =
  Name :: string
  Size :: "64 word"
  Mode :: "32 word"
  ModTime :: int
  IsDir :: bool
  Sys :: sys_value

text \<open>
  A \<^verbatim>\<open>Node\<close>: the embedded \<^verbatim>\<open>os.FileInfo\<close> (nil until \<open>Stat\<close> succeeds), \<open>path\<close>, \<open>depth\<close>,
  \<open>err\<close> (an error is kept as its text) and the children \<open>nodes\<close>. The field \<^verbatim>\<open>vpaths\<close> is
  one map shared by every node of a tree, so it is threaded through the functions as a state
  of its own: the set of the keys stored in it (only \<^verbatim>\<open>true\<close> is ever stored).
\<close>

datatype Node = Node (FileInfo: "FileInfo option") (path: string) (depth: int)
  (err: "string option") (nodes: "Node list")

type_synonym vpaths = "string set"

text \<open>\<^verbatim>\<open>Fs\<close>, the storage interface; \<open>Inl\<close> carries the text of the error.\<close>

record Fs =
  Stat :: "string \<Rightarrow> string + FileInfo"
  ReadDir :: "string \<Rightarrow> string + string list"

text \<open>
  \<^verbatim>\<open>Options\<close>. The field \<^verbatim>\<open>All\<close> is written \<open>All_flag\<close>; \<^verbatim>\<open>OutFile\<close> is part of the output
  state below.
\<close>

record Options =
  Fs :: Fs
  All_flag :: bool
  DirsOnly :: bool
  FullPath :: bool
  IgnoreCase :: bool
  FollowLink :: bool
  DeepLevel :: int
  Pattern :: string
  IPattern :: string
  ByteSize :: bool
  UnitSize :: bool
  FileMode :: bool
  ShowUid :: bool
  ShowGid :: bool
  LastMod :: bool
  Quotes :: bool
  Inodes :: bool
  Device :: bool
  NoSort :: bool
  VerSort :: bool
  ModSort :: bool
  DirSort :: bool
  NameSort :: bool
  SizeSort :: bool
  CTimeSort :: bool
  ReverSort :: bool
  NoIndent :: bool
  Colorize :: bool

text \<open>
  The comparison functions \<^verbatim>\<open>ModSort\<close>, \<^verbatim>\<open>CTimeSort\<close>, \<^verbatim>\<open>DirSort\<close>, \<^verbatim>\<open>VerSort\<close>,
  \<^verbatim>\<open>SizeSort\<close> and \<^verbatim>\<open>NameSort\<close> that \<open>sort\<close> chooses from are named here; their bodies and
  \<^verbatim>\<open>ByFunc\<close> are in a file that is not among the sources.
\<close>

datatype SortFunc = fn_ModSort | fn_CTimeSort | fn_DirSort | fn_VerSort | fn_SizeSort | fn_NameSort

text \<open>
  What the code calls outside this repository and the parts of the repository that are not
  among the sources, as parameters: the path functions of \<^verbatim>\<open>path/filepath\<close> and \<^verbatim>\<open>os\<close>,
  \<^verbatim>\<open>regexp.Compile\<close> (giving the compiled expression's \<^verbatim>\<open>MatchString\<close>), \<^verbatim>\<open>sort.Sort\<close> for a
  given \<^verbatim>\<open>Less\<close>, \<^verbatim>\<open>ByFunc.Less\<close> for each comparison function, \<^verbatim>\<open>user.LookupId\<close> (giving
  the user name), \<^verbatim>\<open>FileMode.String\<close>, \<^verbatim>\<open>Time.Format\<close> with the layout of \<open>print\<close>, and
  \<^verbatim>\<open>strings.ToLower\<close> on a string that is not pure ASCII.
\<close>

record world =
  filepath_Abs :: "string \<Rightarrow> string option"
  filepath_Clean :: "string \<Rightarrow> string"
  filepath_Join :: "string \<Rightarrow> string \<Rightarrow> string"
  filepath_EvalSymlinks :: "string \<Rightarrow> string option"
  os_Readlink :: "string \<Rightarrow> string option"
  regexp_Compile :: "string \<Rightarrow> (string \<Rightarrow> bool) option"
  sort_Sort :: "(Node \<Rightarrow> Node \<Rightarrow> bool) \<Rightarrow> Node list \<Rightarrow> Node list"
  ByFunc_Less :: "SortFunc \<Rightarrow> Node \<Rightarrow> Node \<Rightarrow> bool"
  user_LookupId :: "string \<Rightarrow> string option"
  FileMode_String :: "32 word \<Rightarrow> string"
  Time_Format :: "int \<Rightarrow> string"
  unicode_ToLower :: "string \<Rightarrow> string"

text \<open>
  A call either returns or panics (a nil dereference, a failed type assertion). A function
  that recurses on what the storage returns takes fuel, and \<open>None\<close> means the fuel ran out.
\<close>

datatype 'a outcome = Panic | Return 'a

definition New :: "string \<Rightarrow> Node" where
  "New p = Node None p 0 None []"

definition HasPrefix :: "string \<Rightarrow> string \<Rightarrow> bool" where
  "HasPrefix s p = (take (length p) s = p)"

section \<open>Traversal: \<^verbatim>\<open>Visit\<close> and \<^verbatim>\<open>sort\<close>\<close>

definition sort_fn :: "Options \<Rightarrow> SortFunc option" where
  \<comment> \<open>the \<^verbatim>\<open>switch\<close> of \<open>sort\<close>; \<open>None\<close> is the nil \<open>fn\<close>\<close>
  "sort_fn opts =
     (if ModSort opts then Some fn_ModSort
      else if CTimeSort opts then Some fn_CTimeSort
      else if DirSort opts then Some fn_DirSort
      else if VerSort opts then Some fn_VerSort
      else if SizeSort opts then Some fn_SizeSort
      else if NameSort opts then Some fn_NameSort
      else None)"

definition Reverse :: "('a \<Rightarrow> 'a \<Rightarrow> bool) \<Rightarrow> 'a \<Rightarrow> 'a \<Rightarrow> bool" where
  \<comment> \<open>\<^verbatim>\<open>sort.Reverse\<close>: \<^verbatim>\<open>Less(i, j)\<close> of the result is \<^verbatim>\<open>Less(j, i)\<close> of the argument\<close>
  "Reverse lt a b = lt b a"

definition sort_nodes :: "world \<Rightarrow> Options \<Rightarrow> Node list \<Rightarrow> Node list" where
  \<comment> \<open>\<^verbatim>\<open>node.sort(opts)\<close>, as a function of \<^verbatim>\<open>node.nodes\<close>\<close>
  "sort_nodes w opts ns =
     (case sort_fn opts of
        None \<Rightarrow> ns
      | Some fn \<Rightarrow>
          if ReverSort opts then sort_Sort w (Reverse (ByFunc_Less w fn)) ns
          else sort_Sort w (ByFunc_Less w fn) ns)"

definition rePrefix :: "Options \<Rightarrow> string" where
  "rePrefix opts = (if IgnoreCase opts then ''(?i)'' else '''')"

definition Pattern_rejects :: "world \<Rightarrow> Options \<Rightarrow> string \<Rightarrow> bool" where
  "Pattern_rejects w opts name =
     (Pattern opts \<noteq> '''' \<and>
      (case regexp_Compile w (rePrefix opts @ Pattern opts) of
         Some re \<Rightarrow> \<not> re name
       | None \<Rightarrow> False))"

definition IPattern_rejects :: "world \<Rightarrow> Options \<Rightarrow> string \<Rightarrow> bool" where
  "IPattern_rejects w opts name =
     (IPattern opts \<noteq> '''' \<and>
      (case regexp_Compile w (rePrefix opts @ IPattern opts) of
         Some re \<Rightarrow> re name
       | None \<Rightarrow> False))"

definition skip_child :: "world \<Rightarrow> Options \<Rightarrow> string \<Rightarrow> Node \<Rightarrow> bool outcome" where
  \<comment> \<open>whether one of the \<^verbatim>\<open>continue\<close> statements after the recursive call is taken.
      \<^verbatim>\<open>nnode.IsDir()\<close> dereferences the embedded \<^verbatim>\<open>FileInfo\<close>.\<close>
  "skip_child w opts name nnode =
     (if err nnode = None then
        (case FileInfo nnode of
           None \<Rightarrow> Panic
         | Some fi \<Rightarrow>
             Return (\<not> IsDir fi \<and>
               (DirsOnly opts \<or> Pattern_rejects w opts name \<or> IPattern_rejects w opts name)))
      else Return False)"

definition hidden :: "Options \<Rightarrow> string \<Rightarrow> bool" where
  \<comment> \<open>the "all" option: the first \<^verbatim>\<open>continue\<close> of the loop\<close>
  "hidden opts name = (\<not> All_flag opts \<and> HasPrefix name ''.'')"

type_synonym visit_result = "(Node \<times> vpaths \<times> int \<times> int) outcome option"

fun visit_names ::
  "(Node \<Rightarrow> vpaths \<Rightarrow> visit_result) \<Rightarrow> world \<Rightarrow> Options \<Rightarrow> Node \<Rightarrow> string list \<Rightarrow>
   Node list \<times> vpaths \<times> int \<times> int \<Rightarrow> (Node list \<times> vpaths \<times> int \<times> int) outcome option" where
  "visit_names visit w opts node [] acc = Some (Return acc)"
| "visit_names visit w opts node (name # names) (ns, vp, dirs, files) =
     (if hidden opts name
      then visit_names visit w opts node names (ns, vp, dirs, files)
      else
        (case visit (Node None (filepath_Join w (path node) name) (depth node + 1) None []) vp of
           None \<Rightarrow> None
         | Some Panic \<Rightarrow> Some Panic
         | Some (Return (nnode, vp', d, f)) \<Rightarrow>
             (case skip_child w opts name nnode of
                Panic \<Rightarrow> Some Panic
              | Return True \<Rightarrow> visit_names visit w opts node names (ns, vp', dirs, files)
              | Return False \<Rightarrow>
                  visit_names visit w opts node names (ns @ [nnode], vp', dirs + d, files + f))))"

definition record_path :: "world \<Rightarrow> string \<Rightarrow> vpaths \<Rightarrow> vpaths" where
  \<comment> \<open>the first statement of \<open>Visit\<close>: the cleaned absolute path is stored, if there is one\<close>
  "record_path w p vp =
     (case filepath_Abs w p of
        Some a \<Rightarrow> insert (filepath_Clean w a) vp
      | None \<Rightarrow> vp)"

text \<open>
  \<open>Visit\<close> returns the node as the call leaves it, the shared map, and \<open>(dirs, files)\<close>. The
  counters are Go \<^verbatim>\<open>int\<close>s; each is at most the number of nodes built, so they are
  modelled by unbounded integers.
\<close>

fun Visit :: "nat \<Rightarrow> world \<Rightarrow> Options \<Rightarrow> Node \<Rightarrow> vpaths \<Rightarrow> visit_result" where
  "Visit 0 w opts node vp = None"
| "Visit (Suc k) w opts node vp =
     (let vp = record_path w (path node) vp
      in case Stat (Fs opts) (path node) of
           Inl e \<Rightarrow>
             Some (Return (Node (FileInfo node) (path node) (depth node) (Some e) (nodes node),
                    vp, 0, 0))
         | Inr fi \<Rightarrow>
             if \<not> IsDir fi
             then Some (Return (Node (Some fi) (path node) (depth node) (err node) (nodes node),
                    vp, 0, 1))
             else if DeepLevel opts > 0 \<and> DeepLevel opts \<le> depth node
             then Some (Return (Node (Some fi) (path node) (depth node) (err node) (nodes node),
                    vp, 1, 0))
             else
               (case ReadDir (Fs opts) (path node) of
                  Inl e \<Rightarrow>
                    Some (Return (Node (Some fi) (path node) (depth node) (Some e) (nodes node),
                      vp, 0, 0))
                | Inr names \<Rightarrow>
                    (case visit_names (\<lambda>n v. Visit k w opts n v) w opts
                            (Node (Some fi) (path node) (depth node) (err node) [])
                            names ([], vp, 0, 0) of
                       None \<Rightarrow> None
                     | Some Panic \<Rightarrow> Some Panic
                     | Some (Return (ns, vp', dirs, files)) \<Rightarrow>
                         Some (Return (Node (Some fi) (path node) (depth node) (err node)
                                 (if NoSort opts then ns else sort_nodes w opts ns),
                               vp', dirs + 1, files)))))"

section \<open>The colour file: \<^verbatim>\<open>ANSIColor\<close>\<close>

definition Escape :: string where
  "Escape = [CHR 0x1B]"

text \<open>
  The constant block: \<open>Reset\<close> and \<open>Bold\<close> are given, \<open>Black\<close> is \<^verbatim>\<open>iota + 28\<close> in the third
  line of the block, where \<^verbatim>\<open>iota\<close> is 2, and each following name repeats the expression.
\<close>

definition Reset :: int where "Reset = 0"
definition Bold :: int where "Bold = 1"
definition Black :: int where "Black = 2 + 28"
definition Red :: int where "Red = 3 + 28"
definition Green :: int where "Green = 4 + 28"
definition Yellow :: int where "Yellow = 5 + 28"
definition Blue :: int where "Blue = 6 + 28"
definition Magenta :: int where "Magenta = 7 + 28"
definition Cyan :: int where "Cyan = 8 + 28"
definition White :: int where "White = 9 + 28"

text \<open>The bits of \<^verbatim>\<open>os.FileMode\<close> that the code tests.\<close>

definition ModeSymlink :: "32 word" where "ModeSymlink = push_bit 27 1"
definition ModeDevice :: "32 word" where "ModeDevice = push_bit 26 1"
definition ModeNamedPipe :: "32 word" where "ModeNamedPipe = push_bit 25 1"
definition ModeSocket :: "32 word" where "ModeSocket = push_bit 24 1"
definition ModeCharDevice :: "32 word" where "ModeCharDevice = push_bit 21 1"

fun ext_scan :: "string \<Rightarrow> string \<Rightarrow> string" where
  \<comment> \<open>the loop of \<^verbatim>\<open>filepath.Ext\<close>, from the last byte towards the first; the second
      argument is the suffix passed so far\<close>
  "ext_scan [] suffix = ''''"
| "ext_scan (c # cs) suffix =
     (if c = CHR ''/'' then ''''
      else if c = CHR ''.'' then c # suffix
      else ext_scan cs (c # suffix))"

definition Ext :: "string \<Rightarrow> string" where
  \<comment> \<open>\<^verbatim>\<open>filepath.Ext\<close> with the separator of Unix\<close>
  "Ext p = ext_scan (rev p) ''''"

definition is_upper :: "char \<Rightarrow> bool" where
  "is_upper c = ((65::nat) \<le> of_char c \<and> of_char c \<le> (90::nat))"

definition ascii_lower :: "char \<Rightarrow> char" where
  "ascii_lower c = (if is_upper c then char_of (of_char c + (32::nat)) else c)"

definition is_ascii :: "string \<Rightarrow> bool" where
  "is_ascii s = list_all (\<lambda>c. of_char c < (128::nat)) s"

definition ToLower :: "world \<Rightarrow> string \<Rightarrow> string" where
  \<comment> \<open>\<^verbatim>\<open>strings.ToLower\<close>: bytewise on a pure ASCII string, by the Unicode tables otherwise\<close>
  "ToLower w s = (if is_ascii s then map ascii_lower s else unicode_ToLower w s)"

definition wrap_bold :: "int \<Rightarrow> string \<Rightarrow> string" where
  \<comment> \<open>the last statement of \<open>ANSIColor\<close>: \<^verbatim>\<open>Sprintf("%s[%d;%dm%s%s[%dm", Escape, Bold, color, s, Escape, Reset)\<close>\<close>
  "wrap_bold color s =
     Escape @ ''['' @ show_int Bold @ '';'' @ show_int color @ ''m'' @ s @
     Escape @ ''['' @ show_int Reset @ ''m''"

text \<open>The three \<^verbatim>\<open>case\<close> lists of the \<^verbatim>\<open>switch\<close>, in their order.\<close>

definition executable_exts :: "string list" where
  "executable_exts = [''.bat'', ''.btm'', ''.cmd'', ''.com'', ''.dll'', ''.exe'']"

definition archive_exts :: "string list" where
  "archive_exts = [''.arj'', ''.bz2'', ''.deb'', ''.gz'', ''.lzh'', ''.rpm'', ''.tar'', ''.taz'',
     ''.tb2'', ''.tbz2'', ''.tbz'', ''.tgz'', ''.tz'', ''.tz2'', ''.z'', ''.zip'', ''.zoo'']"

definition media_exts :: "string list" where
  "media_exts = [''.asf'', ''.avi'', ''.bmp'', ''.flac'', ''.gif'', ''.jpg'', ''jpeg'', ''.m2a'',
     ''.m2v'', ''.mov'', ''.mp3'', ''.mpeg'', ''.mpg'', ''.ogg'', ''.ppm'', ''.rm'', ''.tga'',
     ''.tif'', ''.wav'', ''.wmv'', ''.xbm'', ''.xpm'']"

definition ANSIColor :: "world \<Rightarrow> Node \<Rightarrow> string \<Rightarrow> string outcome" where
  "ANSIColor w node s =
     (case FileInfo node of
        None \<Rightarrow> Panic    \<comment> \<open>\<^verbatim>\<open>node.Name()\<close> on a nil \<^verbatim>\<open>FileInfo\<close>\<close>
      | Some fi \<Rightarrow>
          (let ext = ToLower w (Ext (Name fi))
           in if ext \<in> set executable_exts then Return (wrap_bold Green s)
              else if ext \<in> set archive_exts then Return (wrap_bold Red s)
              else if ext \<in> set media_exts then Return (wrap_bold Magenta s)
              else
                (let color = (if IsDir fi then Blue else 0)
                 in if Mode fi AND ModeSymlink = ModeSymlink \<and>
                       filepath_EvalSymlinks w (path node) = None
                    then Return (Escape @ ''[40;'' @ show_int Bold @ '';'' @ show_int Red @ ''m'' @ s @
                                 Escape @ ''['' @ show_int Reset @ ''m'')
                    else
                      (let color = (if Mode fi AND ModeSymlink = ModeSymlink then Cyan else color)
                       in if Mode fi AND ModeSocket = ModeSocket
                          then Return (Escape @ ''[40;'' @ show_int Bold @ '';'' @ show_int Magenta @
                                       ''m'' @ s @ Escape @ ''['' @ show_int Reset @ ''m'')
                          else if Mode fi AND ModeNamedPipe = ModeNamedPipe
                          then Return (Escape @ ''[40;'' @ show_int Yellow @ ''m'' @ s @
                                       Escape @ ''['' @ show_int Reset @ ''m'')
                          else if Mode fi AND ModeDevice = ModeDevice
                          then Return (Escape @ ''[40;'' @ show_int Yellow @ '';01m'' @ s @
                                       Escape @ ''['' @ show_int Reset @ ''m'')
                          else if Mode fi AND ModeCharDevice = ModeCharDevice
                          then Return (Escape @ ''[40;'' @ show_int Yellow @ '';01m'' @ s @
                                       Escape @ ''['' @ show_int Reset @ ''m'')
                          else Return (wrap_bold color s)))))"

section \<open>Rendering: \<^verbatim>\<open>print\<close>\<close>

text \<open>
  What \<open>print\<close> writes is kept as the list of the writes in the order they happen, each with
  its destination: \<^verbatim>\<open>opts.OutFile\<close> or the standard output of the process. The state of a
  rendering is this list and the shared map of visited paths.
\<close>

datatype sink = OutFile | Stdout

record state =
  visited :: vpaths
  written :: "(sink \<times> string) list"

definition emit :: "sink \<Rightarrow> string \<Rightarrow> state \<Rightarrow> state" where
  "emit dst s st = st\<lparr>written := written st @ [(dst, s)]\<rparr>"

definition RuneCount :: "string \<Rightarrow> nat" where
  \<comment> \<open>the width \<^verbatim>\<open>fmt\<close> pads to: the bytes of valid UTF-8 that are not continuation bytes\<close>
  "RuneCount s = length (filter (\<lambda>c. \<not> ((128::nat) \<le> of_char c \<and> of_char c < (192::nat))) s)"

definition pad_left :: "nat \<Rightarrow> string \<Rightarrow> string" where
  \<comment> \<open>the verbs \<^verbatim>\<open>%4s\<close>, \<^verbatim>\<open>%3d\<close>, \<^verbatim>\<open>%11d\<close>\<close>
  "pad_left n s = replicate (n - RuneCount s) (CHR '' '') @ s"

definition pad_right :: "nat \<Rightarrow> string \<Rightarrow> string" where
  \<comment> \<open>the verbs \<^verbatim>\<open>%-8s\<close>, \<^verbatim>\<open>%-4s\<close>\<close>
  "pad_right n s = s @ replicate (n - RuneCount s) (CHR '' '')"

fun Join :: "string list \<Rightarrow> string \<Rightarrow> string" where
  \<comment> \<open>\<^verbatim>\<open>strings.Join\<close>\<close>
  "Join [] sep = ''''"
| "Join [x] sep = x"
| "Join (x # y # ys) sep = x @ sep @ Join (y # ys) sep"

fun Split_colon :: "string \<Rightarrow> string \<Rightarrow> string list" where
  \<comment> \<open>\<^verbatim>\<open>strings.Split(s, ": ")\<close>; the first argument is the current piece, reversed\<close>
  "Split_colon piece [] = [rev piece]"
| "Split_colon piece (c # cs) =
     (if c = CHR '':'' \<and> cs \<noteq> [] \<and> hd cs = CHR '' ''
      then rev piece # Split_colon [] (tl cs)
      else Split_colon (c # piece) cs)"

definition short_error :: "string \<Rightarrow> string" where
  \<comment> \<open>the text in the brackets of an error line\<close>
  "short_error e = (let msgs = Split_colon [] e in if length msgs > 1 then msgs ! 1 else e)"

fun dirRecursiveSize :: "Node \<Rightarrow> 64 word outcome"
  and sum_sizes :: "Node list \<Rightarrow> 64 word \<Rightarrow> 64 word outcome" where
  "dirRecursiveSize (Node fi p d e ns) = sum_sizes ns 0"
| "sum_sizes [] sz = Return sz"
| "sum_sizes (nnode # rest) sz =
     (if err nnode \<noteq> None then sum_sizes rest sz
      else
        (case FileInfo nnode of
           None \<Rightarrow> Panic
         | Some fi \<Rightarrow>
             if \<not> IsDir fi then sum_sizes rest (sz + Size fi)
             else
               (case dirRecursiveSize nnode of
                  Panic \<Rightarrow> Panic
                | Return s \<Rightarrow> sum_sizes rest (sz + s))))"

definition size_column :: "Options \<Rightarrow> 64 word \<Rightarrow> string list" where
  \<comment> \<open>the "Size" block, the same for files and directories\<close>
  "size_column opts sz =
     (if ByteSize opts \<or> UnitSize opts
      then [if UnitSize opts then pad_left 4 (formatBytes (sint sz))
            else pad_left 11 (show_int (sint sz))]
      else [])"

definition file_columns :: "world \<Rightarrow> Options \<Rightarrow> FileInfo \<Rightarrow> Stat_t option \<Rightarrow> string list" where
  \<comment> \<open>the columns of a file, given what \<open>stat\<close> points to. Without a \<^verbatim>\<open>Stat_t\<close> the
      columns that read it are not reached (see \<open>file_props\<close>).\<close>
  "file_columns w opts fi stat =
     (case stat of Some s \<Rightarrow> if Inodes opts then [show_nat (unat (Ino s))] else [] | None \<Rightarrow> []) @
     (case stat of Some s \<Rightarrow> if Device opts then [pad_left 3 (show_nat (unat (Dev s)))] else []
        | None \<Rightarrow> []) @
     (if FileMode opts then [FileMode_String w (Mode fi)] else []) @
     (case stat of
        Some s \<Rightarrow>
          if ShowUid opts
          then (let uid = show_nat (unat (Uid s))
                in case user_LookupId w uid of
                     None \<Rightarrow> [pad_right 8 uid]
                   | Some username \<Rightarrow> [pad_right 8 username])
          else []
      | None \<Rightarrow> []) @
     (case stat of Some s \<Rightarrow> if ShowGid opts then [pad_right 4 (show_nat (unat (Gid s)))] else []
        | None \<Rightarrow> []) @
     size_column opts (Size fi) @
     (if LastMod opts then [Time_Format w (ModTime fi)] else [])"

definition file_props :: "world \<Rightarrow> Options \<Rightarrow> FileInfo \<Rightarrow> string list outcome" where
  \<comment> \<open>the branch of a non-directory: the type assertion on \<^verbatim>\<open>node.Sys()\<close> comes first and
      panics unless the value is a \<^verbatim>\<open>*syscall.Stat_t\<close>; a nil pointer of that type passes it
      and panics where a field is read\<close>
  "file_props w opts fi =
     (case Sys fi of
        Sys_other \<Rightarrow> Panic
      | Sys_nil_Stat \<Rightarrow>
          if Inodes opts \<or> Device opts \<or> ShowUid opts \<or> ShowGid opts then Panic
          else Return (file_columns w opts fi None)
      | Sys_Stat s \<Rightarrow> Return (file_columns w opts fi (Some s)))"

definition dir_props :: "Options \<Rightarrow> Node \<Rightarrow> string list outcome" where
  "dir_props opts node =
     (if ByteSize opts \<or> UnitSize opts
      then (case dirRecursiveSize node of
              Panic \<Rightarrow> Panic
            | Return rsize \<Rightarrow> Return (size_column opts rsize))
      else Return [])"

definition display_name :: "world \<Rightarrow> Options \<Rightarrow> Node \<Rightarrow> FileInfo \<Rightarrow> string outcome" where
  \<comment> \<open>the blocks "name/path", "Quotes" and "Colorize"\<close>
  "display_name w opts node fi =
     (let name = (if depth node = 0 \<or> FullPath opts then path node else Name fi);
          name = (if Quotes opts then [CHR 0x22] @ name @ [CHR 0x22] else name)
      in if Colorize opts then ANSIColor w node name else Return name)"

text \<open>
  The block "IsSymlink". \<open>link_vtarget\<close> is \<open>vtarget\<close> as read from the link, \<open>link_targetPath\<close>
  is \<open>targetPath\<close>, and \<open>link_display\<close> is \<open>vtarget\<close> after the colouring with the target's
  \<^verbatim>\<open>FileInfo\<close> (\<open>fi != nil\<close> is the case \<open>Inr\<close>).
\<close>

definition link_vtarget :: "world \<Rightarrow> Node \<Rightarrow> string" where
  "link_vtarget w node = (case os_Readlink w (path node) of Some t \<Rightarrow> t | None \<Rightarrow> path node)"

definition link_targetPath :: "world \<Rightarrow> Node \<Rightarrow> string" where
  "link_targetPath w node =
     (case filepath_EvalSymlinks w (path node) of Some t \<Rightarrow> t | None \<Rightarrow> link_vtarget w node)"

definition link_display :: "world \<Rightarrow> Options \<Rightarrow> Node \<Rightarrow> string outcome" where
  "link_display w opts node =
     (case Stat (Fs opts) (link_targetPath w node) of
        Inr tfi \<Rightarrow>
          if Colorize opts
          then ANSIColor w (Node (Some tfi) (link_vtarget w node) 0 None []) (link_vtarget w node)
          else Return (link_vtarget w node)
      | Inl e \<Rightarrow> Return (link_vtarget w node))"

text \<open>
  \<open>symlink_step\<close> gives the name with the target appended, the children the node has
  afterwards, and the state. \<open>fi\<close> is the node's own \<^verbatim>\<open>FileInfo\<close>; the target's is \<open>tfi\<close>. The
  node handed to \<open>Visit\<close> has depth 0 and no children, and shares the map of visited paths.
\<close>

definition symlink_step ::
  "nat \<Rightarrow> world \<Rightarrow> Options \<Rightarrow> Node \<Rightarrow> FileInfo \<Rightarrow> string \<Rightarrow> state \<Rightarrow>
   (string \<times> Node list \<times> state) outcome option" where
  "symlink_step k w opts node fi name st =
     (if Mode fi AND ModeSymlink = ModeSymlink then
        (case link_display w opts node of
           Panic \<Rightarrow> Some Panic
         | Return vtarget \<Rightarrow>
             (let name = name @ '' -> '' @ vtarget
              in if FollowLink opts then
                   (case (filepath_Abs w (link_targetPath w node),
                          Stat (Fs opts) (link_targetPath w node)) of
                      (Some p, Inr tfi) \<Rightarrow>
                        if IsDir tfi then
                          if filepath_Clean w p \<notin> visited st then
                            (case Visit k w opts (Node (Some tfi) (link_targetPath w node) 0 None [])
                                    (visited st) of
                               None \<Rightarrow> None
                             | Some Panic \<Rightarrow> Some Panic
                             | Some (Return (inf_node, vp, dirs, files)) \<Rightarrow>
                                 Some (Return (name, nodes inf_node, st\<lparr>visited := vp\<rparr>)))
                          else Some (Return (name @ '' [recursive, not followed]'',
                                             nodes node, st))
                        else Some (Return (name, nodes node, st))
                    | _ \<Rightarrow> Some (Return (name, nodes node, st)))
                 else Some (Return (name, nodes node, st))))
      else Some (Return (name, nodes node, st)))"

definition glyph_last :: string where
  \<comment> \<open>the corner glyph and two dashes (UTF-8), then a space\<close>
  "glyph_last = [CHR 0xE2, CHR 0x94, CHR 0x94, CHR 0xE2, CHR 0x94, CHR 0x80,
                 CHR 0xE2, CHR 0x94, CHR 0x80, CHR '' '']"

definition glyph_mid :: string where
  \<comment> \<open>the branch glyph and two dashes (UTF-8), then a space\<close>
  "glyph_mid = [CHR 0xE2, CHR 0x94, CHR 0x9C, CHR 0xE2, CHR 0x94, CHR 0x80,
                CHR 0xE2, CHR 0x94, CHR 0x80, CHR '' '']"

definition glyph_bar :: string where
  \<comment> \<open>the initial value of \<open>add\<close>: the vertical bar (UTF-8) and three spaces\<close>
  "glyph_bar = [CHR 0xE2, CHR 0x94, CHR 0x82, CHR '' '', CHR '' '', CHR '' '']"

type_synonym print_result = "(Node \<times> state) outcome option"

fun print_nodes ::
  "(string \<Rightarrow> Node \<Rightarrow> state \<Rightarrow> print_result) \<Rightarrow> Options \<Rightarrow> string \<Rightarrow> string \<Rightarrow> Node list \<Rightarrow>
   state \<Rightarrow> (Node list \<times> state) outcome option" where
  \<comment> \<open>the loop over \<^verbatim>\<open>node.nodes\<close>; \<open>add\<close> is a variable of the enclosing function\<close>
  "print_nodes pr opts indent add [] st = Some (Return ([], st))"
| "print_nodes pr opts indent add (nnode # rest) st =
     (let (add, st) =
            (if NoIndent opts then ('''', st)
             else if rest = [] then (''    '', emit OutFile (indent @ glyph_last) st)
             else (add, emit OutFile (indent @ glyph_mid) st))
      in case pr (indent @ add) nnode st of
           None \<Rightarrow> None
         | Some Panic \<Rightarrow> Some Panic
         | Some (Return (nnode', st)) \<Rightarrow>
             (case print_nodes pr opts indent add rest st of
                None \<Rightarrow> None
              | Some Panic \<Rightarrow> Some Panic
              | Some (Return (rest', st)) \<Rightarrow> Some (Return (nnode' # rest', st))))"

text \<open>
  \<open>print\<close> returns the node as rendering leaves it (its children are the nodes the recursive
  calls leave) and the state.
\<close>

fun print :: "nat \<Rightarrow> world \<Rightarrow> Options \<Rightarrow> string \<Rightarrow> Node \<Rightarrow> state \<Rightarrow> print_result" where
  "print 0 w opts indent node st = None"
| "print (Suc k) w opts indent node st =
     (case err node of
        Some e \<Rightarrow>
          Some (Return (node,
            emit Stdout (path node @ '' ['' @ short_error e @ '']'' @ [CHR 0x0A]) st))
      | None \<Rightarrow>
          (case FileInfo node of
             None \<Rightarrow> Some Panic    \<comment> \<open>\<^verbatim>\<open>node.IsDir()\<close> on a nil \<^verbatim>\<open>FileInfo\<close>\<close>
           | Some fi \<Rightarrow>
               (case (if \<not> IsDir fi then file_props w opts fi else dir_props opts node) of
                  Panic \<Rightarrow> Some Panic
                | Return props \<Rightarrow>
                    (let st = (if length props > 0
                               then emit OutFile (''['' @ Join props '' '' @ '']  '') st
                               else st)
                     in case display_name w opts node fi of
                          Panic \<Rightarrow> Some Panic
                        | Return name \<Rightarrow>
                            (case symlink_step k w opts node fi name st of
                               None \<Rightarrow> None
                             | Some Panic \<Rightarrow> Some Panic
                             | Some (Return (name, ns, st)) \<Rightarrow>
                                 (case print_nodes (\<lambda>i n s. print k w opts i n s) opts indent
                                         glyph_bar ns (emit OutFile (name @ [CHR 0x0A]) st) of
                                    None \<Rightarrow> None
                                  | Some Panic \<Rightarrow> Some Panic
                                  | Some (Return (ns', st)) \<Rightarrow>
                                      Some (Return (Node (FileInfo node) (path node) (depth node)
                                                      (err node) ns', st))))))))"

definition Print :: "nat \<Rightarrow> world \<Rightarrow> Options \<Rightarrow> Node \<Rightarrow> state \<Rightarrow> print_result" where
  "Print k w opts node st = print k w opts '''' node st"

section \<open>Derived notions used to state the properties of the traversal\<close>

text \<open>
  The entries of a directory that \<open>Visit\<close> attaches, in listing order, each with the node and
  the counts that \<open>Visit\<close> returned for it. This is the loop of \<open>Visit\<close> without the
  accumulators and without the shared map (which \<open>Visit\<close> only writes). \<open>None\<close>: some child's
  traversal does not return with fuel \<open>k\<close>.
\<close>

fun kept_children ::
  "nat \<Rightarrow> world \<Rightarrow> Options \<Rightarrow> Node \<Rightarrow> string list \<Rightarrow> (Node \<times> int \<times> int) list option" where
  "kept_children k w opts node [] = Some []"
| "kept_children k w opts node (name # names) =
     (if hidden opts name then kept_children k w opts node names
      else
        (case Visit k w opts
                (Node None (filepath_Join w (path node) name) (depth node + 1) None []) {} of
           Some (Return (nnode, vp, d, f)) \<Rightarrow>
             (case skip_child w opts name nnode of
                Return True \<Rightarrow> kept_children k w opts node names
              | Return False \<Rightarrow>
                  map_option (\<lambda>rs. (nnode, d, f) # rs) (kept_children k w opts node names)
              | Panic \<Rightarrow> None)
         | _ \<Rightarrow> None))"

definition is_file :: "Node \<Rightarrow> bool" where
  \<comment> \<open>a node that was statted and is not a directory\<close>
  "is_file c = (case FileInfo c of Some fi \<Rightarrow> err c = None \<and> \<not> IsDir fi | None \<Rightarrow> False)"

definition is_subdir :: "Node \<Rightarrow> bool" where
  \<comment> \<open>a node that was statted and is a directory\<close>
  "is_subdir c = (case FileInfo c of Some fi \<Rightarrow> IsDir fi | None \<Rightarrow> False)"

definition dirs_of :: "(Node \<times> int \<times> int) list \<Rightarrow> int" where
  "dirs_of rs = sum_list (map (\<lambda>(c, d, f). d) rs)"

definition files_of :: "(Node \<times> int \<times> int) list \<Rightarrow> int" where
  "files_of rs = sum_list (map (\<lambda>(c, d, f). f) rs)"

definition with_vpaths ::
  "vpaths \<Rightarrow> ('a \<times> vpaths \<times> 'b) outcome option \<Rightarrow> ('a \<times> vpaths \<times> 'b) outcome option" where
  \<comment> \<open>the same result, with the keys of \<open>vp\<close> stored in the map as well\<close>
  "with_vpaths vp r =
     (case r of
        None \<Rightarrow> None
      | Some Panic \<Rightarrow> Some Panic
      | Some (Return (a, V, b)) \<Rightarrow> Some (Return (a, vp \<union> V, b)))"






fun move_left :: "('a \<Rightarrow> 'a \<Rightarrow> bool) \<Rightarrow> 'a \<Rightarrow> 'a list \<Rightarrow> 'a list" where
  "move_left lt x [] = [x]"
| "move_left lt x (y # rs) = (if lt x y then y # move_left lt x rs else x # y # rs)"

definition insertionSort :: "('a \<Rightarrow> 'a \<Rightarrow> bool) \<Rightarrow> 'a list \<Rightarrow> 'a list" where
  "insertionSort lt xs = rev (foldl (\<lambda>rs x. move_left lt x rs) [] xs)"

fun precedes :: "'a \<Rightarrow> 'a \<Rightarrow> 'a list \<Rightarrow> bool" where
  "precedes a b [] = False"
| "precedes a b (x # xs) = ((x = a \<and> b \<in> set xs) \<or> precedes a b xs)"

text \<open>
  Error texts: whether a text contains the separator \<^verbatim>\<open>": "\<close>, and the spec's short error,
  everything after the first separator.
\<close>

fun has_sep :: "string \<Rightarrow> bool" where
  "has_sep [] = False"
| "has_sep (c # cs) = ((c = CHR '':'' \<and> cs \<noteq> [] \<and> hd cs = CHR '' '') \<or> has_sep cs)"

fun after_first_sep :: "string \<Rightarrow> string" where
  "after_first_sep [] = []"
| "after_first_sep (c # cs) =
     (if c = CHR '':'' \<and> cs \<noteq> [] \<and> hd cs = CHR '' '' then tl cs else after_first_sep cs)"

text \<open>
  Two trees that differ at most below symbolic links: every field of every node agrees,
  except the children of a node whose mode has the symlink bit.
\<close>

definition is_link :: "FileInfo option \<Rightarrow> bool" where
  "is_link fi = (case fi of Some i \<Rightarrow> Mode i AND ModeSymlink = ModeSymlink | None \<Rightarrow> False)"

fun same_but_links :: "Node \<Rightarrow> Node \<Rightarrow> bool"
  and same_but_links_list :: "Node list \<Rightarrow> Node list \<Rightarrow> bool" where
  "same_but_links (Node fi p d e ns) (Node fi' p' d' e' ns') =
     (fi' = fi \<and> p' = p \<and> d' = d \<and> e' = e \<and> (is_link fi \<or> same_but_links_list ns ns'))"
| "same_but_links_list [] ms = (ms = [])"
| "same_but_links_list (n # ns) ms =
     (case ms of [] \<Rightarrow> False | m # ms' \<Rightarrow> same_but_links n m \<and> same_but_links_list ns ms')"

text \<open>
  The tree rendering leaves, in the words of the description: a node with an error stays as
  it is. A symbolic link is followed when follow-symlinks is set, the resolved target is a
  directory, and the cleaned absolute path of the target is not among the visited paths;
  then the target is traversed afresh and the children of that traversal take the place of
  the node's children. Every other node keeps its children. The children a node ends with
  are then treated the same way, from left to right, each with the visited paths its
  predecessor leaves. No other field of a node changes.
\<close>

definition same_fields :: "Node \<Rightarrow> Node \<Rightarrow> bool" where
  \<comment> \<open>two nodes that agree in everything but their children\<close>
  "same_fields n n' =
     (FileInfo n' = FileInfo n \<and> path n' = path n \<and> depth n' = depth n \<and> err n' = err n)"

definition follows :: "world \<Rightarrow> Options \<Rightarrow> Node \<Rightarrow> vpaths \<Rightarrow> bool" where
  "follows w opts node vp =
     (is_link (FileInfo node) \<and> FollowLink opts \<and>
      (case (filepath_Abs w (link_targetPath w node), Stat (Fs opts) (link_targetPath w node)) of
         (Some p, Inr tfi) \<Rightarrow> IsDir tfi \<and> filepath_Clean w p \<notin> vp
       | _ \<Rightarrow> False))"

definition fresh_traversal ::
  "nat \<Rightarrow> world \<Rightarrow> Options \<Rightarrow> Node \<Rightarrow> vpaths \<Rightarrow> (Node list \<times> vpaths) option" where
  \<comment> \<open>the children and the visited paths after \<open>Visit\<close> on a new node for the target\<close>
  "fresh_traversal k w opts node vp =
     (case Stat (Fs opts) (link_targetPath w node) of
        Inl e \<Rightarrow> None
      | Inr tfi \<Rightarrow>
          (case Visit k w opts (Node (Some tfi) (link_targetPath w node) 0 None []) vp of
             Some (Return (target, vp', dirs, files)) \<Rightarrow> Some (nodes target, vp')
           | _ \<Rightarrow> None))"

fun trees_after ::
  "(Node \<Rightarrow> vpaths \<Rightarrow> (Node \<times> vpaths) option) \<Rightarrow> Node list \<Rightarrow> vpaths \<Rightarrow>
   (Node list \<times> vpaths) option" where
  "trees_after f [] vp = Some ([], vp)"
| "trees_after f (n # ns) vp =
     (case f n vp of
        None \<Rightarrow> None
      | Some (n', vp1) \<Rightarrow>
          (case trees_after f ns vp1 of
             None \<Rightarrow> None
           | Some (ns', vp2) \<Rightarrow> Some (n' # ns', vp2)))"

fun tree_after :: "nat \<Rightarrow> world \<Rightarrow> Options \<Rightarrow> Node \<Rightarrow> vpaths \<Rightarrow> (Node \<times> vpaths) option" where
  "tree_after 0 w opts node vp = None"
| "tree_after (Suc k) w opts node vp =
     (if err node \<noteq> None then Some (node, vp)
      else
        (case (if follows w opts node vp then fresh_traversal k w opts node vp
               else Some (nodes node, vp)) of
           None \<Rightarrow> None
         | Some (ns, vp1) \<Rightarrow>
             (case trees_after (\<lambda>n v. tree_after k w opts n v) ns vp1 of
                None \<Rightarrow> None
              | Some (ns', vp2) \<Rightarrow>
                  Some (Node (FileInfo node) (path node) (depth node) (err node) ns', vp2))))"

text \<open>The extension \<open>ANSIColor\<close> looks up, and whether one of its three lists has it.\<close>

definition ext_of :: "world \<Rightarrow> FileInfo \<Rightarrow> string" where
  "ext_of w fi = ToLower w (Ext (Name fi))"

definition ext_rule :: "world \<Rightarrow> FileInfo \<Rightarrow> bool" where
  "ext_rule w fi = (ext_of w fi \<in> set (executable_exts @ archive_exts @ media_exts))"

definition has_mode :: "FileInfo \<Rightarrow> 32 word \<Rightarrow> bool" where
  "has_mode fi m = (Mode fi AND m = m)"

section \<open>A small file system, for concrete instances\<close>

text \<open>
  The instances of the theorems below run the functions on this storage. \<^verbatim>\<open>/r\<close> holds two
  files, a directory with one file, an entry that cannot be statted and a hidden file;
  \<^verbatim>\<open>/q\<close> is a directory that cannot be listed;
  \<^verbatim>\<open>/k\<close> holds a symbolic link to \<^verbatim>\<open>/k\<close> itself and one to the directory \<^verbatim>\<open>/t\<close>
  (\<^verbatim>\<open>/k/dead\<close>, which is not listed, is the path of a link whose target does not exist); \<^verbatim>\<open>/v\<close> is
  a symbolic link to \<^verbatim>\<open>/w\<close>, and \<^verbatim>\<open>/w/A\<close> holds a link \<^verbatim>\<open>L\<close> to \<^verbatim>\<open>/w/A\<close>; \<^verbatim>\<open>/s\<close> lists the
  files \<^verbatim>\<open>m\<close>, \<^verbatim>\<open>z\<close> and \<^verbatim>\<open>a\<close> in this order, of 5, 9 and 5 bytes. \<open>Stat\<close> does not
  follow a link in the last component of a path (it is \<^verbatim>\<open>os.Lstat\<close>), as the command line
  tool of the repository has it.
\<close>

definition demo_stat_t :: Stat_t where
  "demo_stat_t = \<lparr>Ino = 7, Dev = 1, Uid = 0, Gid = 0\<rparr>"

definition a_file :: "string \<Rightarrow> 64 word \<Rightarrow> FileInfo" where
  "a_file n sz =
     \<lparr>Name = n, Size = sz, Mode = 0x1A4, ModTime = 0, IsDir = False, Sys = Sys_Stat demo_stat_t\<rparr>"

definition a_dir :: "string \<Rightarrow> FileInfo" where
  "a_dir n =
     \<lparr>Name = n, Size = 4096, Mode = 0x800001ED, ModTime = 0, IsDir = True,
      Sys = Sys_Stat demo_stat_t\<rparr>"

definition a_link :: "string \<Rightarrow> FileInfo" where
  "a_link n =
     \<lparr>Name = n, Size = 2, Mode = 0x80001FF, ModTime = 0, IsDir = False,
      Sys = Sys_Stat demo_stat_t\<rparr>"

definition demo_Stat :: "string \<Rightarrow> string + FileInfo" where
  "demo_Stat p =
     (if p = ''/r'' then Inr (a_dir ''r'')
      else if p = ''/r/a.go'' then Inr (a_file ''a.go'' 1536)
      else if p = ''/r/b.py'' then Inr (a_file ''b.py'' 10)
      else if p = ''/r/d'' then Inr (a_dir ''d'')
      else if p = ''/r/d/c.go'' then Inr (a_file ''c.go'' 20)
      else if p = ''/r/x'' then Inl ''lstat /r/x: permission denied''
      else if p = ''/r/.hid'' then Inr (a_file ''.hid'' 1)
      else if p = ''/q'' then Inr (a_dir ''q'')
      else if p = ''/k'' then Inr (a_dir ''k'')
      else if p = ''/k/self'' then Inr (a_link ''self'')
      else if p = ''/k/out'' then Inr (a_link ''out'')
      else if p = ''/t'' then Inr (a_dir ''t'')
      else if p = ''/t/c'' then Inr (a_file ''c'' 5)
      else if p = ''/v/A'' then Inr (a_dir ''A'')
      else if p = ''/v/A/L'' then Inr (a_link ''L'')
      else if p = ''/w/A'' then Inr (a_dir ''A'')
      else if p = ''/w/A/L'' then Inr (a_link ''L'')
      else if p = ''/s'' then Inr (a_dir ''s'')
      else if p = ''/s/m'' then Inr (a_file ''m'' 5)
      else if p = ''/s/z'' then Inr (a_file ''z'' 9)
      else if p = ''/s/a'' then Inr (a_file ''a'' 5)
      else Inl (''lstat '' @ p @ '': no such file or directory''))"

definition demo_ReadDir :: "string \<Rightarrow> string + string list" where
  "demo_ReadDir p =
     (if p = ''/r'' then Inr [''a.go'', ''b.py'', ''d'', ''x'', ''.hid'']
      else if p = ''/r/d'' then Inr [''c.go'']
      else if p = ''/q'' then Inl ''open /q: permission denied''
      else if p = ''/k'' then Inr [''self'', ''out'']
      else if p = ''/t'' then Inr [''c'']
      else if p = ''/v/A'' then Inr [''L'']
      else if p = ''/w/A'' then Inr [''L'']
      else if p = ''/s'' then Inr [''m'', ''z'', ''a'']
      else Inl (''open '' @ p @ '': not a directory''))"

definition demo_fs :: Fs where
  "demo_fs = \<lparr>Stat = demo_Stat, ReadDir = demo_ReadDir\<rparr>"

definition demo_target :: "string \<Rightarrow> string option" where
  \<comment> \<open>the text of each symbolic link\<close>
  "demo_target p =
     (if p = ''/k/self'' then Some ''/k''
      else if p = ''/k/out'' then Some ''/t''
      else if p = ''/k/dead'' then Some ''/nowhere''
      else if p = ''/v/A/L'' then Some ''/w/A''
      else if p = ''/w/A/L'' then Some ''/w/A''
      else None)"

definition demo_EvalSymlinks :: "string \<Rightarrow> string option" where
  "demo_EvalSymlinks p =
     (if p = ''/k/dead'' then None
      else case demo_target p of
             Some t \<Rightarrow> Some t
           | None \<Rightarrow> if p = ''/v/A'' then Some ''/w/A'' else Some p)"

definition has_suffix :: "string \<Rightarrow> string \<Rightarrow> bool" where
  "has_suffix s x = (drop (length x - length s) x = s)"

definition demo_Compile :: "string \<Rightarrow> (string \<Rightarrow> bool) option" where
  \<comment> \<open>two expressions compile; every other one counts as malformed\<close>
  "demo_Compile p =
     (if p = ''[.]go$'' then Some (has_suffix ''.go'')
      else if p = ''(?i)[.]go$'' then Some (\<lambda>x. has_suffix ''.go'' (map ascii_lower x))
      else None)"

fun bytes_less :: "string \<Rightarrow> string \<Rightarrow> bool" where
  \<comment> \<open>\<^verbatim>\<open><\<close> on Go strings: byte by byte\<close>
  "bytes_less [] [] = False"
| "bytes_less [] (y # ys) = True"
| "bytes_less (x # xs) [] = False"
| "bytes_less (x # xs) (y # ys) =
     ((of_char x :: nat) < of_char y \<or> (x = y \<and> bytes_less xs ys))"

definition demo_Less :: "SortFunc \<Rightarrow> Node \<Rightarrow> Node \<Rightarrow> bool" where
  \<comment> \<open>the comparisons of the instances: a node without \<^verbatim>\<open>FileInfo\<close> goes behind the nodes
      that have one; by size, by modification time, directories first, by name. The
      instances use neither the version nor the change-time policy, which compare like
      name and modification time here.\<close>
  "demo_Less fn a b =
     (case (FileInfo a, FileInfo b) of
        (Some x, Some y) \<Rightarrow>
          (case fn of
             fn_ModSort \<Rightarrow> ModTime x < ModTime y
           | fn_CTimeSort \<Rightarrow> ModTime x < ModTime y
           | fn_DirSort \<Rightarrow> IsDir x \<and> \<not> IsDir y
           | fn_VerSort \<Rightarrow> bytes_less (Name x) (Name y)
           | fn_SizeSort \<Rightarrow> sint (Size x) < sint (Size y)
           | fn_NameSort \<Rightarrow> bytes_less (Name x) (Name y))
      | (_, y) \<Rightarrow> y = None)"

text \<open>
  The library calls of the instances. \<^verbatim>\<open>sort.Sort\<close> is \<open>insertionSort\<close>, which is what it runs
  on slices as short as the directories here; paths are absolute and clean already.
\<close>

definition demo_world :: world where
  "demo_world =
     \<lparr>filepath_Abs = Some,
      filepath_Clean = (\<lambda>p. p),
      filepath_Join = (\<lambda>a b. a @ ''/'' @ b),
      filepath_EvalSymlinks = demo_EvalSymlinks,
      os_Readlink = demo_target,
      regexp_Compile = demo_Compile,
      sort_Sort = insertionSort,
      ByFunc_Less = demo_Less,
      user_LookupId = (\<lambda>u. if u = ''0'' then Some ''root'' else None),
      FileMode_String = (\<lambda>m. ''-rw-r--r--''),
      Time_Format = (\<lambda>t. ''Jan 01 00:00''),
      unicode_ToLower = (\<lambda>s. s)\<rparr>"

definition demo_opts :: Options where
  "demo_opts =
     \<lparr>Fs = demo_fs, All_flag = False, DirsOnly = False, FullPath = False, IgnoreCase = False,
      FollowLink = False, DeepLevel = 0, Pattern = '''', IPattern = '''', ByteSize = False,
      UnitSize = False, FileMode = False, ShowUid = False, ShowGid = False, LastMod = False,
      Quotes = False, Inodes = False, Device = False, NoSort = False, VerSort = False,
      ModSort = False, DirSort = False, NameSort = False, SizeSort = False, CTimeSort = False,
      ReverSort = False, NoIndent = False, Colorize = False\<rparr>"

definition start :: state where
  \<comment> \<open>nothing visited, nothing written\<close>
  "start = \<lparr>visited = {}, written = []\<rparr>"

text \<open>
  The trees \<open>Visit\<close> builds for \<^verbatim>\<open>/k\<close>, \<^verbatim>\<open>/t\<close> and \<^verbatim>\<open>/v/A\<close> (see the instances below), and the
  trees rendering with follow-symlinks leaves for \<^verbatim>\<open>/k\<close> and \<^verbatim>\<open>/v/A\<close>.
\<close>

definition k_tree :: Node where
  "k_tree = Node (Some (a_dir ''k'')) ''/k'' 0 None
     [Node (Some (a_link ''self'')) ''/k/self'' 1 None [],
      Node (Some (a_link ''out'')) ''/k/out'' 1 None []]"

definition k_tree_followed :: Node where
  "k_tree_followed = Node (Some (a_dir ''k'')) ''/k'' 0 None
     [Node (Some (a_link ''self'')) ''/k/self'' 1 None [],
      Node (Some (a_link ''out'')) ''/k/out'' 1 None
        [Node (Some (a_file ''c'' 5)) ''/t/c'' 1 None []]]"

definition t_tree :: Node where
  "t_tree = Node (Some (a_dir ''t'')) ''/t'' 0 None [Node (Some (a_file ''c'' 5)) ''/t/c'' 1 None []]"

definition va_tree :: Node where
  "va_tree = Node (Some (a_dir ''A'')) ''/v/A'' 0 None
     [Node (Some (a_link ''L'')) ''/v/A/L'' 1 None []]"

definition va_tree_followed :: Node where
  "va_tree_followed = Node (Some (a_dir ''A'')) ''/v/A'' 0 None
     [Node (Some (a_link ''L'')) ''/v/A/L'' 1 None
        [Node (Some (a_link ''L'')) ''/w/A/L'' 1 None []]]"

definition follow_opts :: Options where
  "follow_opts = demo_opts\<lparr>FollowLink := True\<rparr>"

text \<open>
  The two links of \<^verbatim>\<open>/k\<close> as \<open>Visit\<close> leaves them, and the state after \<^verbatim>\<open>/k\<close> was traversed.
\<close>

definition self_node :: Node where
  "self_node = Node (Some (a_link ''self'')) ''/k/self'' 1 None []"

definition out_node :: Node where
  "out_node = Node (Some (a_link ''out'')) ''/k/out'' 1 None []"

definition k_state :: state where
  "k_state = \<lparr>visited = {''/k'', ''/k/self'', ''/k/out''}, written = []\<rparr>"




section \<open>Properties of the byte-size formatter\<close>

lemma show_nat_small: "n < 10 \<Longrightarrow> show_nat n = [digit_char n]"
  by (subst show_nat.simps) simp

lemma show_nat_large: "10 \<le> n \<Longrightarrow> show_nat n = show_nat (n div 10) @ [digit_char (n mod 10)]"
  by (subst show_nat.simps) simp

lemma digit_char_is_digit: "d < 10 \<Longrightarrow> is_digit (digit_char d)"
proof -
  assume "d < 10"
  then have "d \<in> {0, 1, 2, 3, 4, 5, 6, 7, 8, 9}" by auto
  then show ?thesis by (auto simp: digit_char_def is_digit_def)
qed

lemma show_nat_all_digits: "all_digits (show_nat n)"
proof (induction n rule: show_nat.induct)
  case (1 n)
  show ?case
  proof (cases "n < 10")
    case True
    then show ?thesis by (simp add: show_nat_small all_digits_def digit_char_is_digit)
  next
    case False
    with 1 show ?thesis
      by (simp add: show_nat_large all_digits_def digit_char_is_digit)
  qed
qed

lemma Trim_id: "s \<noteq> [] \<Longrightarrow> hd s \<noteq> c \<Longrightarrow> last s \<noteq> c \<Longrightarrow> Trim s c = s"
proof -
  assume a: "s \<noteq> []" "hd s \<noteq> c" "last s \<noteq> c"
  then have 1: "dropWhile (\<lambda>x. x = c) s = s" by (cases s) auto
  from a have "rev s \<noteq> []" "hd (rev s) \<noteq> c" by (simp_all add: hd_rev)
  then have "dropWhile (\<lambda>x. x = c) (rev s) = rev s" by (cases "rev s") auto
  with 1 show ?thesis by (simp add: Trim_def)
qed

lemma round_half_even_one: "round_half_even x 1 = x"
  by (simp add: round_half_even_def)

lemma round_half_even_ge: "0 \<le> x \<Longrightarrow> 0 < d \<Longrightarrow> x div d \<le> round_half_even x d"
  by (simp add: round_half_even_def Let_def)

lemma float64_small: "\<bar>i\<bar> < 2 ^ 53 \<Longrightarrow> float64 i = i"
  by (simp add: float64_def Let_def)

lemma float64_big: 
  assumes "2 ^ 53 \<le> i" shows "2 ^ 53 \<le> float64 i"
proof -
  define e where "e = nat (bitlen i) - 53"
  have ipos: "0 < i" using assms by (smt (verit) zero_less_power)
  from bitlen_bounds[OF ipos] have lo: "2 ^ nat (bitlen i - 1) \<le> i" and hi: "i < 2 ^ nat (bitlen i)" by auto
  have "(2::int) ^ 53 < 2 ^ nat (bitlen i)" using assms hi by linarith
  then have "53 < nat (bitlen i)" by (rule power_less_imp_less_exp[rotated]) simp
  then have e1: "1 \<le> e" and be: "nat (bitlen i - 1) = e + 52" by (auto simp: e_def)
  have "(2::int) ^ 52 * 2 ^ e \<le> i" using lo be by (simp add: power_add mult.commute)
  then have "((2::int) ^ 52 * 2 ^ e) div 2 ^ e \<le> i div 2 ^ e"
    by (rule zdiv_mono1) simp
  then have "(2::int) ^ 52 \<le> i div 2 ^ e" by simp
  also have "\<dots> \<le> round_half_even i (2 ^ e)" using ipos by (intro round_half_even_ge) auto
  finally have q: "2 ^ 52 \<le> round_half_even i (2 ^ e)" .
  have two: "(2::int) ^ 1 \<le> 2 ^ e" using e1 by (intro power_increasing) auto
  have "(2::int) ^ 53 = 2 ^ 52 * 2 ^ 1" by simp
  also have "\<dots> \<le> round_half_even i (2 ^ e) * 2 ^ e"
    using q two by (intro mult_mono) auto
  finally show ?thesis using assms ipos by (simp add: float64_def Let_def e_def)
qed


lemma show_nat_nonempty: "show_nat n \<noteq> []"
  using show_nat_all_digits[of n] by (simp add: all_digits_def)

lemma hd_show_nat_not_space: "hd (show_nat n) \<noteq> CHR '' ''"
proof -
  have "is_digit (hd (show_nat n))"
    using show_nat_all_digits[of n] by (cases "show_nat n") (auto simp: all_digits_def)
  then show ?thesis by (auto simp: is_digit_def)
qed

lemma last_show_nat_not_space: "last (show_nat n) \<noteq> CHR '' ''"
proof -
  have "last (show_nat n) \<in> set (show_nat n)" using show_nat_nonempty by simp
  then have "is_digit (last (show_nat n))"
    using show_nat_all_digits[of n] by (auto simp: all_digits_def list_all_iff)
  then show ?thesis by (auto simp: is_digit_def)
qed

lemma round_half_even_nonneg: "0 \<le> x \<Longrightarrow> 0 < d \<Longrightarrow> 0 \<le> round_half_even x d"
  using round_half_even_ge[of x d] by (smt (verit) pos_imp_zdiv_nonneg_iff)

lemma Sprintf_f0: "0 \<le> m \<Longrightarrow> Sprintf_f 0 m k = show_nat (nat (round_half_even m (2 ^ k)))"
  by (simp add: Sprintf_f_def Let_def)

lemma Sprintf_f1:
  assumes "0 \<le> m"
  shows "Sprintf_f (Suc 0) m k =
    show_nat (nat (round_half_even (m * 10) (2 ^ k) div 10)) @ ''.'' @
      [digit_char (nat (round_half_even (m * 10) (2 ^ k) mod 10))]"
proof -
  have "nat (round_half_even (m * 10) (2 ^ k) mod 10) < 10" by simp
  then show ?thesis using assms by (simp add: Sprintf_f_def Let_def show_nat_small)
qed

lemma float64_ge_iff:
  assumes "0 \<le> i" "c \<le> 2 ^ 53"
  shows "c \<le> float64 i \<longleftrightarrow> c \<le> i"
proof (cases "i < 2 ^ 53")
  case True
  then show ?thesis using assms by (simp add: float64_small)
next
  case False
  then show ?thesis using float64_big[of i] assms by linarith
qed

lemma formatBytes_scaled:
  assumes "0 < i" "k \<le> 30" "suf \<noteq> []" "last suf \<noteq> CHR '' ''"
  shows "(10 * 2 ^ k \<le> float64 i \<longrightarrow>
            Trim (Sprintf_f 0 (float64 i) k @ suf) (CHR '' '') = scaled_digits i k @ suf) \<and>
         (\<not> 10 * 2 ^ k \<le> float64 i \<longrightarrow>
            Trim (Sprintf_f (Suc 0) (float64 i) k @ suf) (CHR '' '') = scaled_digits i k @ suf)"
proof -
  have "(10::int) * 2 ^ k \<le> 10 * 2 ^ 30" using assms(2) by (intro mult_left_mono power_increasing) auto
  then have c: "(10::int) * 2 ^ k \<le> 2 ^ 53" by simp
  have ge: "10 * 2 ^ k \<le> float64 i \<longleftrightarrow> 10 * 2 ^ k \<le> i"
    using assms(1) c by (intro float64_ge_iff) auto
  have f0: "0 \<le> float64 i" using float64_ge_iff[of i 0] assms(1) by simp
  show ?thesis
  proof (cases "10 * 2 ^ k \<le> i")
    case True
    then show ?thesis using ge f0 assms
      by (simp add: Sprintf_f0 scaled_digits_def Trim_id show_nat_nonempty hd_append hd_show_nat_not_space)
  next
    case False
    then have "i < 2 ^ 53" using c by linarith
    then have fi: "float64 i = i" using assms(1) by (simp add: float64_small)
    show ?thesis using False ge fi assms
      by (simp add: Sprintf_f1 scaled_digits_def Trim_id show_nat_nonempty hd_append hd_show_nat_not_space Let_def)
  qed
qed

lemma scaled_digits_shape:
  "0 \<le> i \<Longrightarrow> (if 10 * 2 ^ k \<le> i then all_digits (scaled_digits i k)
    else \<exists>ds d. scaled_digits i k = ds @ ''.'' @ [d] \<and> all_digits ds \<and> is_digit d)"
  by (auto simp: scaled_digits_def show_nat_all_digits Let_def intro!: digit_char_is_digit)

lemma formatBytes_default:
  assumes "i \<le> 1024"
  shows "formatBytes i = show_int (float64 i)"
proof -
  have eq: "formatBytes i = Trim (Sprintf_f 0 (float64 i) 0) (CHR '' '')"
    using assms by (simp add: formatBytes_def)
  have s: "Sprintf_f 0 (float64 i) 0 = show_int (float64 i)"
    by (simp add: Sprintf_f_def Let_def round_half_even_one show_int_def)
  have ne: "show_int (float64 i) \<noteq> []" by (simp add: show_int_def show_nat_nonempty)
  have h: "hd (show_int (float64 i)) \<noteq> CHR '' ''"
    by (simp add: show_int_def hd_show_nat_not_space)
  have l: "last (show_int (float64 i)) \<noteq> CHR '' ''"
    by (simp add: show_int_def last_show_nat_not_space show_nat_nonempty)
  show ?thesis using eq s ne h l by (simp add: Trim_id)
qed

lemma show_int_chars: "list_all (\<lambda>c. c \<in> set ''-0123456789'') (show_int x)"
  using show_nat_all_digits[of "nat x"] show_nat_all_digits[of "nat (- x)"]
  by (auto simp: show_int_def all_digits_def is_digit_def list_all_iff)

text \<open>
  Claim C5, as the code has it. \<open>formatBytes\<close> maps 0 to "0", 1023 to "1023", 1536 to "1.5K",
  10240 to "10K" and 1073741824 (exactly 1 GiB) to "1024M". A byte count gets the suffix G, M
  or K exactly when it is strictly greater than 1 GiB, 1 MiB or 1 KiB, and is then rendered
  with one decimal place unless the scaled value is at least 10, in which case it has no
  decimals. A count of at most 1 KiB is printed as the plain integer: only digits and a sign,
  no suffix and no decimal point.
\<close>

theorem formatBytes_thresholds:
  "formatBytes 0 = ''0'' \<and> formatBytes 1023 = ''1023'' \<and> formatBytes 1536 = ''1.5K'' \<and>
   formatBytes 10240 = ''10K'' \<and> formatBytes 1073741824 = ''1024M'' \<and>
   (1024 * 1024 * 1024 < i \<longrightarrow> formatBytes i = scaled_digits i 30 @ ''G'') \<and>
   (1024 * 1024 < i \<and> i \<le> 1024 * 1024 * 1024 \<longrightarrow> formatBytes i = scaled_digits i 20 @ ''M'') \<and>
   (1024 < i \<and> i \<le> 1024 * 1024 \<longrightarrow> formatBytes i = scaled_digits i 10 @ ''K'') \<and>
   (i \<le> 1024 \<longrightarrow> formatBytes i = show_int (float64 i) \<and>
       list_all (\<lambda>c. c \<in> set ''-0123456789'') (formatBytes i)) \<and>
   (0 \<le> i \<longrightarrow> (if 10 * 2 ^ k \<le> i then all_digits (scaled_digits i k)
       else \<exists>ds d. scaled_digits i k = ds @ ''.'' @ [d] \<and> all_digits ds \<and> is_digit d))"
proof -
  have ex: "formatBytes 0 = ''0''" "formatBytes 1023 = ''1023''" "formatBytes 1536 = ''1.5K''"
    "formatBytes 10240 = ''10K''" "formatBytes 1073741824 = ''1024M''"
    by code_simp+
  have g: "formatBytes i = scaled_digits i 30 @ ''G''" if "1024 * 1024 * 1024 < i"
    using that formatBytes_scaled[of i 30 "''G''"] by (simp add: formatBytes_def)
  have m: "formatBytes i = scaled_digits i 20 @ ''M''" if "1024 * 1024 < i" "i \<le> 1024 * 1024 * 1024"
    using that formatBytes_scaled[of i 20 "''M''"] by (simp add: formatBytes_def)
  have k: "formatBytes i = scaled_digits i 10 @ ''K''" if "1024 < i" "i \<le> 1024 * 1024"
    using that formatBytes_scaled[of i 10 "''K''"] by (simp add: formatBytes_def)
  have d: "formatBytes i = show_int (float64 i) \<and>
       list_all (\<lambda>c. c \<in> set ''-0123456789'') (formatBytes i)" if "i \<le> 1024"
    using formatBytes_default[OF that] show_int_chars[of "float64 i"] by simp
  show ?thesis using ex g m k d scaled_digits_shape[of i k] by blast
qed

theorem formatBytes_thresholds_witness:
  "formatBytes 3221225472 = ''3.0G'' \<and> formatBytes 3145728 = ''3.0M'' \<and>
   formatBytes 1025 = ''1.0K'' \<and> formatBytes 1000 = ''1000'' \<and>
   formatBytes 12884901888 = ''12G'' \<and> all_digits (scaled_digits 12884901888 30)"
proof -
  have v: "scaled_digits 3221225472 30 = ''3.0''" "scaled_digits 3145728 20 = ''3.0''"
    "scaled_digits 1025 10 = ''1.0''" "show_int (float64 1000) = ''1000''"
    "scaled_digits 12884901888 30 = ''12''"
    by code_simp+
  show ?thesis
    using formatBytes_thresholds[of 3221225472 30] formatBytes_thresholds[of 3145728 20]
      formatBytes_thresholds[of 1025 10] formatBytes_thresholds[of 1000 10]
      formatBytes_thresholds[of 12884901888 30] v
    by simp
qed

text \<open>
  Claim C5 as stated gives "1.0G" for 1073741824. That count does not exceed 1 GiB, so the
  code takes the MiB branch.
\<close>

theorem formatBytes_one_GiB: "formatBytes 1073741824 \<noteq> ''1.0G''"
  by code_simp
section \<open>Properties of the traversal\<close>

declare Visit.simps(2) [simp del]
declare visit_names.simps(2) [simp del]

lemma record_path_mono: "vp \<subseteq> record_path w p vp"
  by (auto simp: record_path_def split: option.splits)

lemma Visit_stat_failed:
  "Stat (Fs opts) (path node) = Inl e \<Longrightarrow>
   Visit (Suc k) w opts node vp =
     Some (Return (Node (FileInfo node) (path node) (depth node) (Some e) (nodes node),
       record_path w (path node) vp, 0, 0))"
  by (auto simp: Visit.simps(2) Let_def)

lemma Visit_not_dir:
  "Stat (Fs opts) (path node) = Inr fi \<Longrightarrow> \<not> IsDir fi \<Longrightarrow>
   Visit (Suc k) w opts node vp =
     Some (Return (Node (Some fi) (path node) (depth node) (err node) (nodes node),
       record_path w (path node) vp, 0, 1))"
  by (auto simp: Visit.simps(2) Let_def)

lemma Visit_depth_limit:
  "Stat (Fs opts) (path node) = Inr fi \<Longrightarrow> IsDir fi \<Longrightarrow>
   DeepLevel opts > 0 \<and> DeepLevel opts \<le> depth node \<Longrightarrow>
   Visit (Suc k) w opts node vp =
     Some (Return (Node (Some fi) (path node) (depth node) (err node) (nodes node),
       record_path w (path node) vp, 1, 0))"
  by (auto simp: Visit.simps(2) Let_def)

lemma Visit_readdir_failed:
  "Stat (Fs opts) (path node) = Inr fi \<Longrightarrow> IsDir fi \<Longrightarrow>
   \<not> (DeepLevel opts > 0 \<and> DeepLevel opts \<le> depth node) \<Longrightarrow>
   ReadDir (Fs opts) (path node) = Inl e \<Longrightarrow>
   Visit (Suc k) w opts node vp =
     Some (Return (Node (Some fi) (path node) (depth node) (Some e) (nodes node),
       record_path w (path node) vp, 0, 0))"
  by (auto simp: Visit.simps(2) Let_def)

lemma Visit_dir:
  "Stat (Fs opts) (path node) = Inr fi \<Longrightarrow> IsDir fi \<Longrightarrow>
   \<not> (DeepLevel opts > 0 \<and> DeepLevel opts \<le> depth node) \<Longrightarrow>
   ReadDir (Fs opts) (path node) = Inr names \<Longrightarrow>
   Visit (Suc k) w opts node vp =
     (case visit_names (\<lambda>n v. Visit k w opts n v) w opts
             (Node (Some fi) (path node) (depth node) (err node) [])
             names ([], record_path w (path node) vp, 0, 0) of
        None \<Rightarrow> None
      | Some Panic \<Rightarrow> Some Panic
      | Some (Return (ns, vp', dirs, files)) \<Rightarrow>
          Some (Return (Node (Some fi) (path node) (depth node) (err node)
                  (if NoSort opts then ns else sort_nodes w opts ns),
                vp', dirs + 1, files)))"
  by (auto simp: Visit.simps(2) Let_def)

lemma visit_names_hidden:
  "hidden opts name \<Longrightarrow>
   visit_names visit w opts node (name # names) acc = visit_names visit w opts node names acc"
  by (cases acc) (simp add: visit_names.simps(2))

lemma visit_names_step:
  "\<not> hidden opts name \<Longrightarrow>
   visit (Node None (filepath_Join w (path node) name) (depth node + 1) None []) vp
     = Some (Return (c, vp', d, f)) \<Longrightarrow>
   skip_child w opts name c = Return b \<Longrightarrow>
   visit_names visit w opts node (name # names) (ns, vp, dirs, files) =
     visit_names visit w opts node names
       (if b then (ns, vp', dirs, files) else (ns @ [c], vp', dirs + d, files + f))"
  by (auto simp: visit_names.simps(2))

lemma visit_names_stuck:
  "\<not> hidden opts name \<Longrightarrow>
   visit (Node None (filepath_Join w (path node) name) (depth node + 1) None []) vp = None \<Longrightarrow>
   visit_names visit w opts node (name # names) (ns, vp, dirs, files) = None"
  by (auto simp: visit_names.simps(2))


lemma visit_names_panic:
  "\<not> hidden opts name \<Longrightarrow>
   visit (Node None (filepath_Join w (path node) name) (depth node + 1) None []) vp = Some Panic \<Longrightarrow>
   visit_names visit w opts node (name # names) (ns, vp, dirs, files) = Some Panic"
  by (auto simp: visit_names.simps(2))

lemma skip_child_Return:
  "err c = None \<longrightarrow> FileInfo c \<noteq> None \<Longrightarrow> \<exists>b. skip_child w opts name c = Return b"
  by (auto simp: skip_child_def split: option.splits)

lemma visit_names_Return:
  assumes v: "\<And>n vp r. visit n vp = Some r \<Longrightarrow>
      \<exists>n' vp' d f. r = Return (n', vp', d, f) \<and> (err n' = None \<longrightarrow> FileInfo n' \<noteq> None) \<and> vp \<subseteq> vp'"
    and r: "visit_names visit w opts node names (ns, vp, dirs, files) = Some r"
  shows "\<exists>ns' vp' dirs' files'. r = Return (ns', vp', dirs', files') \<and> vp \<subseteq> vp'"
  using r
proof (induction names arbitrary: ns vp dirs files)
  case Nil
  then show ?case by auto
next
  case (Cons name names)
  show ?case
  proof (cases "hidden opts name")
    case True
    with Cons show ?thesis by (simp add: visit_names_hidden)
  next
    case False
    let ?c = "Node None (filepath_Join w (path node) name) (depth node + 1) None []"
    from Cons.prems False obtain r0 where r0: "visit ?c vp = Some r0"
      by (cases "visit ?c vp") (simp_all add: visit_names_stuck)
    have ex: "\<exists>n' vp' d f. r0 = Return (n', vp', d, f) \<and> (err n' = None \<longrightarrow> FileInfo n' \<noteq> None) \<and> vp \<subseteq> vp'"
      using r0 by (rule v)
    then obtain c vp1 d f where
      c: "r0 = Return (c, vp1, d, f)" "err c = None \<longrightarrow> FileInfo c \<noteq> None" "vp \<subseteq> vp1"
      by (elim exE conjE)
    have "\<exists>b. skip_child w opts name c = Return b" using c(2) by (rule skip_child_Return)
    then obtain b where b: "skip_child w opts name c = Return b" by (elim exE)
    have "visit_names visit w opts node names
       (if b then (ns, vp1, dirs, files) else (ns @ [c], vp1, dirs + d, files + f)) = Some r"
      using Cons.prems visit_names_step[where visit=visit, OF False r0[unfolded c(1)] b, of names ns dirs files] by simp
    then have "\<exists>ns' vp' dirs' files'. r = Return (ns', vp', dirs', files') \<and> vp1 \<subseteq> vp'"
    proof (cases b)
      case True
      assume "visit_names visit w opts node names
       (if b then (ns, vp1, dirs, files) else (ns @ [c], vp1, dirs + d, files + f)) = Some r"
      with True have "visit_names visit w opts node names (ns, vp1, dirs, files) = Some r" by simp
      then show ?thesis by (rule Cons.IH)
    next
      case False
      assume "visit_names visit w opts node names
       (if b then (ns, vp1, dirs, files) else (ns @ [c], vp1, dirs + d, files + f)) = Some r"
      with False have "visit_names visit w opts node names (ns @ [c], vp1, dirs + d, files + f) = Some r" by simp
      then show ?thesis by (rule Cons.IH)
    qed
    then show ?thesis using c(3) by blast
  qed
qed


lemma Visit_Return:
  "Visit k w opts n vp = Some r \<Longrightarrow>
     \<exists>n' vp' d f. r = Return (n', vp', d, f) \<and> path n' = path n \<and> depth n' = depth n \<and>
        (err n' = None \<longrightarrow> FileInfo n' \<noteq> None) \<and> vp \<subseteq> vp'"
proof (induction k arbitrary: n vp r)
  case 0
  then show ?case by simp
next
  case (Suc k)
  have sub: "vp \<subseteq> record_path w (path n) vp" by (rule record_path_mono)
  show ?case
  proof (cases "Stat (Fs opts) (path n)")
    case (Inl e)
    with Suc.prems sub show ?thesis by (auto simp: Visit_stat_failed)
  next
    case (Inr fi)
    note st = Inr
    show ?thesis
    proof (cases "IsDir fi")
      case False
      with Suc.prems sub st show ?thesis by (auto simp: Visit_not_dir)
    next
      case True
      note dir = True
      show ?thesis
      proof (cases "DeepLevel opts > 0 \<and> DeepLevel opts \<le> depth n")
        case True
        with Suc.prems sub st dir show ?thesis by (auto simp: Visit_depth_limit)
      next
        case False
        note nd = False
        show ?thesis
        proof (cases "ReadDir (Fs opts) (path n)")
          case (Inl e)
          with Suc.prems sub st dir nd show ?thesis by (auto simp: Visit_readdir_failed)
        next
          case (Inr names)
          let ?loop = "visit_names (\<lambda>n v. Visit k w opts n v) w opts
                              (Node (Some fi) (path n) (depth n) (err n) [])
                              names ([], record_path w (path n) vp, 0, 0)"
          note eq = Visit_dir[OF st dir nd Inr, of k w vp]
          from Suc.prems eq obtain r0 where r0: "?loop = Some r0"
            by (cases ?loop) simp_all
          have "\<exists>ns' vp' dirs' files'. r0 = Return (ns', vp', dirs', files') \<and>
                  record_path w (path n) vp \<subseteq> vp'"
          proof -
            have v: "\<exists>n'a vp' d f. r' = Return (n'a, vp', d, f) \<and>
                (err n'a = None \<longrightarrow> FileInfo n'a \<noteq> None) \<and> vp'' \<subseteq> vp'"
              if "Visit k w opts n' vp'' = Some r'" for n' vp'' r'
            proof -
              from Suc.IH[OF that] obtain n'a vp' d f where
                "r' = Return (n'a, vp', d, f)" "err n'a = None \<longrightarrow> FileInfo n'a \<noteq> None" "vp'' \<subseteq> vp'"
                by (elim exE conjE)
              then show ?thesis by (intro exI conjI)
            qed
            show ?thesis
              by (rule visit_names_Return[where visit="Visit k w opts" and w=w and opts=opts
                    and node="Node (Some fi) (path n) (depth n) (err n) []" and names=names
                    and ns="[]" and vp="record_path w (path n) vp" and dirs=0 and files=0 and r=r0,
                    OF v r0])
          qed
          then obtain ns' vp' dirs' files' where
            r0': "r0 = Return (ns', vp', dirs', files')" "record_path w (path n) vp \<subseteq> vp'" by blast
          from Suc.prems eq r0 r0'(1) have
            "r = Return (Node (Some fi) (path n) (depth n) (err n)
                  (if NoSort opts then ns' else sort_nodes w opts ns'), vp', dirs' + 1, files')"
            by simp
          with sub r0'(2) show ?thesis by auto
        qed
      qed
    qed
  qed
qed

lemma with_vpaths_simps [simp]:
  "with_vpaths vp None = None"
  "with_vpaths vp (Some Panic) = Some Panic"
  "with_vpaths vp (Some (Return (a, V, b))) = Some (Return (a, vp \<union> V, b))"
  by (simp_all add: with_vpaths_def)

lemma record_path_Un: "record_path w p (vp \<union> V) = vp \<union> record_path w p V"
  by (auto simp: record_path_def split: option.splits)

lemma visit_names_vpaths:
  assumes v: "\<And>n vp. visit n vp = with_vpaths vp (visit n {})"
  shows "visit_names visit w opts node names (ns, vp \<union> V, dirs, files) =
         with_vpaths vp (visit_names visit w opts node names (ns, V, dirs, files))"
proof (induction names arbitrary: ns V dirs files)
  case Nil
  show ?case by simp
next
  case (Cons name names)
  show ?case
  proof (cases "hidden opts name")
    case True
    then show ?thesis by (simp add: visit_names_hidden Cons.IH)
  next
    case False
    let ?c = "Node None (filepath_Join w (path node) name) (depth node + 1) None []"
    have l: "visit ?c (vp \<union> V) = with_vpaths (vp \<union> V) (visit ?c {})" by (rule v)
    have r: "visit ?c V = with_vpaths V (visit ?c {})" by (rule v)
    show ?thesis
    proof (cases "visit ?c {}")
      case None
      with l r False show ?thesis by (simp add: visit_names_stuck)
    next
      case (Some o0)
      show ?thesis
      proof (cases o0)
        case Panic
        with Some l r False show ?thesis by (simp add: visit_names_panic)
      next
        case (Return t)
        obtain c V0 d f where t: "t = (c, V0, d, f)" by (cases t) auto
        have l': "visit ?c (vp \<union> V) = Some (Return (c, vp \<union> (V \<union> V0), d, f))"
          using l Some Return t by (simp add: Un_assoc)
        have r': "visit ?c V = Some (Return (c, V \<union> V0, d, f))"
          using r Some Return t by simp
        show ?thesis
        proof (cases "skip_child w opts name c")
          case Panic
          then show ?thesis using False l' r' by (simp add: visit_names.simps(2))
        next
          case (Return b)
          show ?thesis
            unfolding visit_names_step[where visit=visit, OF False l' Return]
              visit_names_step[where visit=visit, OF False r' Return]
            by (cases b) (simp_all add: Cons.IH)
        qed
      qed
    qed
  qed
qed

lemma Visit_vpaths: "Visit k w opts n vp = with_vpaths vp (Visit k w opts n {})"
proof (induction k arbitrary: n vp)
  case 0
  show ?case by simp
next
  case (Suc k)
  have rp: "record_path w (path n) vp = vp \<union> record_path w (path n) {}"
    using record_path_Un[of w "path n" vp "{}"] by simp
  show ?case
  proof (cases "Stat (Fs opts) (path n)")
    case (Inl e)
    then show ?thesis using rp by (simp add: Visit_stat_failed)
  next
    case (Inr fi)
    note st = Inr
    show ?thesis
    proof (cases "IsDir fi")
      case False
      with st rp show ?thesis by (simp add: Visit_not_dir)
    next
      case True
      note dir = True
      show ?thesis
      proof (cases "DeepLevel opts > 0 \<and> DeepLevel opts \<le> depth n")
        case True
        with st dir rp show ?thesis by (simp add: Visit_depth_limit)
      next
        case False
        note nd = False
        show ?thesis
        proof (cases "ReadDir (Fs opts) (path n)")
          case (Inl e)
          with st dir nd rp show ?thesis by (simp add: Visit_readdir_failed)
        next
          case (Inr names)
          let ?node = "Node (Some fi) (path n) (depth n) (err n) []"
          let ?loop = "\<lambda>V. visit_names (Visit k w opts) w opts ?node names ([], V, 0, 0)"
          have v: "\<And>n vp. Visit k w opts n vp = with_vpaths vp (Visit k w opts n {})"
            by (rule Suc.IH)
          have "?loop (vp \<union> record_path w (path n) {}) = with_vpaths vp (?loop (record_path w (path n) {}))"
            by (rule visit_names_vpaths[where visit="Visit k w opts", OF v])
          then have loop: "?loop (record_path w (path n) vp) = with_vpaths vp (?loop (record_path w (path n) {}))"
            using rp by simp
          show ?thesis
            unfolding Visit_dir[OF st dir nd Inr] loop
            by (cases "?loop (record_path w (path n) {})")
               (auto split: outcome.splits)
        qed
      qed
    qed
  qed
qed

declare kept_children.simps(2) [simp del]

lemma kept_children_hidden:
  "hidden opts name \<Longrightarrow>
   kept_children k w opts node (name # names) = kept_children k w opts node names"
  by (simp add: kept_children.simps(2))

lemma kept_children_step:
  "\<not> hidden opts name \<Longrightarrow>
   Visit k w opts (Node None (filepath_Join w (path node) name) (depth node + 1) None []) {}
     = Some (Return (c, V, d, f)) \<Longrightarrow>
   skip_child w opts name c = Return b \<Longrightarrow>
   kept_children k w opts node (name # names) =
     (if b then kept_children k w opts node names
      else map_option (\<lambda>rs. (c, d, f) # rs) (kept_children k w opts node names))"
  by (simp add: kept_children.simps(2))

lemma kept_children_Some:
  assumes "\<not> hidden opts name" "kept_children k w opts node (name # names) = Some rs"
  shows "\<exists>c V d f b. Visit k w opts (Node None (filepath_Join w (path node) name) (depth node + 1) None []) {}
            = Some (Return (c, V, d, f)) \<and> skip_child w opts name c = Return b"
  using assms
  by (auto simp: kept_children.simps(2) split: option.splits outcome.splits bool.splits)

lemma visit_names_kept:
  assumes "kept_children k w opts node names = Some rs"
  shows "\<exists>vp'. visit_names (Visit k w opts) w opts node names (ns, vp, dirs, files) =
           Some (Return (ns @ map fst rs, vp', dirs + dirs_of rs, files + files_of rs)) \<and> vp \<subseteq> vp'"
  using assms
proof (induction names arbitrary: ns vp dirs files rs)
  case Nil
  then show ?case by (simp add: dirs_of_def files_of_def)
next
  case (Cons name names)
  show ?case
  proof (cases "hidden opts name")
    case True
    with Cons.prems have "kept_children k w opts node names = Some rs"
      by (simp add: kept_children_hidden)
    from Cons.IH[OF this, of ns vp dirs files] True show ?thesis
      by (simp add: visit_names_hidden)
  next
    case False
    let ?c = "Node None (filepath_Join w (path node) name) (depth node + 1) None []"
    from kept_children_Some[OF False Cons.prems] obtain c V d f b where
      c: "Visit k w opts ?c {} = Some (Return (c, V, d, f))" and b: "skip_child w opts name c = Return b"
      by (elim exE conjE)
    have cv: "Visit k w opts ?c vp = Some (Return (c, vp \<union> V, d, f))"
      using Visit_vpaths[of k w opts ?c vp] c by simp
    note step = visit_names_step[where visit="Visit k w opts", OF False cv b, of names ns dirs files]
    note kstep = kept_children_step[OF False c b, of names]
    show ?thesis
    proof (cases b)
      case True
      with kstep Cons.prems have "kept_children k w opts node names = Some rs" by simp
      from Cons.IH[OF this, of ns "vp \<union> V" dirs files] obtain vp' where
        "visit_names (Visit k w opts) w opts node names (ns, vp \<union> V, dirs, files) =
           Some (Return (ns @ map fst rs, vp', dirs + dirs_of rs, files + files_of rs))" "vp \<union> V \<subseteq> vp'"
        by (elim exE conjE)
      with step True show ?thesis by auto
    next
      case False
      with kstep Cons.prems have "map_option (\<lambda>rs. (c, d, f) # rs) (kept_children k w opts node names) = Some rs"
        by simp
      then obtain rs' where rs': "kept_children k w opts node names = Some rs'"
        and rs: "rs = (c, d, f) # rs'" by (cases "kept_children k w opts node names") auto
      from Cons.IH[OF rs', of "ns @ [c]" "vp \<union> V" "dirs + d" "files + f"] obtain vp' where
        "visit_names (Visit k w opts) w opts node names (ns @ [c], vp \<union> V, dirs + d, files + f) =
           Some (Return ((ns @ [c]) @ map fst rs', vp', (dirs + d) + dirs_of rs', (files + f) + files_of rs'))"
          "vp \<union> V \<subseteq> vp'"
        by (elim exE conjE)
      with step False rs show ?thesis by (auto simp: dirs_of_def files_of_def)
    qed
  qed
qed

lemma kept_children_append:
  assumes "kept_children k w opts node xs = Some rs" "kept_children k w opts node ys = Some rs'"
  shows "kept_children k w opts node (xs @ ys) = Some (rs @ rs')"
  using assms(1)
proof (induction xs arbitrary: rs)
  case Nil
  then show ?case using assms(2) by simp
next
  case (Cons name xs)
  show ?case
  proof (cases "hidden opts name")
    case True
    then show ?thesis using Cons by (simp add: kept_children_hidden)
  next
    case False
    from kept_children_Some[OF False Cons.prems] obtain c V d f b where
      c: "Visit k w opts (Node None (filepath_Join w (path node) name) (depth node + 1) None []) {}
            = Some (Return (c, V, d, f))" and b: "skip_child w opts name c = Return b"
      by (elim exE conjE)
    note s1 = kept_children_step[OF False c b, of xs]
    note s2 = kept_children_step[OF False c b, of "xs @ ys"]
    show ?thesis
    proof (cases b)
      case True
      with s1 s2 Cons show ?thesis by simp
    next
      case False
      with s1 Cons.prems have "map_option (\<lambda>rs. (c, d, f) # rs) (kept_children k w opts node xs) = Some rs"
        by simp
      then obtain r1 where r1: "kept_children k w opts node xs = Some r1" and rs: "rs = (c, d, f) # r1"
        by (cases "kept_children k w opts node xs") auto
      from Cons.IH[OF r1] s2 False rs show ?thesis by simp
    qed
  qed
qed

lemma Visit_fresh_cases:
  assumes "Visit k w opts (Node None p dep None []) vp = Some (Return (c, vp', d, f))"
  shows "(FileInfo c = None \<and> err c \<noteq> None \<and> d = 0 \<and> f = 0) \<or>
         (\<exists>fi. FileInfo c = Some fi \<and> \<not> IsDir fi \<and> err c = None \<and> d = 0 \<and> f = 1 \<and> nodes c = []) \<or>
         (\<exists>fi. FileInfo c = Some fi \<and> IsDir fi)"
proof (cases k)
  case 0
  with assms show ?thesis by simp
next
  case (Suc j)
  let ?n = "Node None p dep None []"
  show ?thesis
  proof (cases "Stat (Fs opts) p")
    case (Inl e)
    then have "Stat (Fs opts) (path ?n) = Inl e" by simp
    from Visit_stat_failed[OF this, of j w vp] assms Suc show ?thesis by auto
  next
    case (Inr fi)
    then have st: "Stat (Fs opts) (path ?n) = Inr fi" by simp
    show ?thesis
    proof (cases "IsDir fi")
      case False
      from Visit_not_dir[OF st False, of j w vp] assms Suc show ?thesis by auto
    next
      case True
      have "path c = p \<and> FileInfo c = Some fi"
      proof (cases "DeepLevel opts > 0 \<and> DeepLevel opts \<le> depth ?n")
        case True
        from Visit_depth_limit[OF st \<open>IsDir fi\<close> True, of j w vp] assms Suc show ?thesis by auto
      next
        case False
        note nd = False
        show ?thesis
        proof (cases "ReadDir (Fs opts) (path ?n)")
          case (Inl e)
          from Visit_readdir_failed[OF st \<open>IsDir fi\<close> nd Inl, of j w vp] assms Suc show ?thesis by auto
        next
          case (Inr names)
          from Visit_dir[OF st \<open>IsDir fi\<close> nd Inr, of j w vp] assms Suc show ?thesis
            by (auto split: option.splits outcome.splits)
        qed
      qed
      with True show ?thesis by simp
    qed
  qed
qed

lemma kept_children_elems:
  assumes "kept_children k w opts node names = Some rs" "(c, d, f) \<in> set rs"
  shows "\<exists>name V. name \<in> set names \<and> \<not> hidden opts name \<and>
           Visit k w opts (Node None (filepath_Join w (path node) name) (depth node + 1) None []) {}
             = Some (Return (c, V, d, f)) \<and>
           skip_child w opts name c = Return False"
  using assms
proof (induction names arbitrary: rs)
  case Nil
  then show ?case by simp
next
  case (Cons name names)
  show ?case
  proof (cases "hidden opts name")
    case True
    with Cons.prems have "kept_children k w opts node names = Some rs"
      by (simp add: kept_children_hidden)
    from Cons.IH[OF this Cons.prems(2)] show ?thesis by auto
  next
    case False
    from kept_children_Some[OF False Cons.prems(1)] obtain c0 V d0 f0 b where
      c: "Visit k w opts (Node None (filepath_Join w (path node) name) (depth node + 1) None []) {}
            = Some (Return (c0, V, d0, f0))" and b: "skip_child w opts name c0 = Return b"
      by (elim exE conjE)
    note s1 = kept_children_step[OF False c b, of names]
    show ?thesis
    proof (cases b)
      case True
      with s1 Cons.prems have "kept_children k w opts node names = Some rs" by simp
      from Cons.IH[OF this Cons.prems(2)] show ?thesis by auto
    next
      case nb: False
      with s1 Cons.prems have "map_option (\<lambda>rs. (c0, d0, f0) # rs) (kept_children k w opts node names) = Some rs"
        by simp
      then obtain r1 where r1: "kept_children k w opts node names = Some r1" and rs: "rs = (c0, d0, f0) # r1"
        by (cases "kept_children k w opts node names") auto
      show ?thesis
      proof (cases "(c, d, f) = (c0, d0, f0)")
        case True
        with c b nb False show ?thesis by auto
      next
        case False
        with Cons.prems(2) rs have "(c, d, f) \<in> set r1" by auto
        from Cons.IH[OF r1 this] show ?thesis by auto
      qed
    qed
  qed
qed

lemma kept_children_cases:
  assumes "kept_children k w opts node names = Some rs" "(c, d, f) \<in> set rs"
  shows "(\<not> is_file c \<and> \<not> is_subdir c \<and> d = 0 \<and> f = 0) \<or>
         (is_file c \<and> \<not> is_subdir c \<and> d = 0 \<and> f = 1) \<or>
         (is_subdir c \<and> \<not> is_file c)"
proof -
  from kept_children_elems[OF assms] obtain name V where
    "Visit k w opts (Node None (filepath_Join w (path node) name) (depth node + 1) None []) {}
             = Some (Return (c, V, d, f))" by blast
  from Visit_fresh_cases[OF this] show ?thesis
    by (auto simp: is_file_def is_subdir_def)
qed

lemma counts_split:
  assumes "\<And>c d f. (c, d, f) \<in> set rs \<Longrightarrow>
         (\<not> is_file c \<and> \<not> is_subdir c \<and> d = 0 \<and> f = 0) \<or>
         (is_file c \<and> \<not> is_subdir c \<and> d = 0 \<and> f = 1) \<or>
         (is_subdir c \<and> \<not> is_file c)"
  shows "dirs_of rs = dirs_of (filter (\<lambda>r. is_subdir (fst r)) rs) \<and>
         files_of rs = int (length (filter (\<lambda>r. is_file (fst r)) rs)) +
                        files_of (filter (\<lambda>r. is_subdir (fst r)) rs)"
  using assms
proof (induction rs)
  case Nil
  show ?case by (simp add: dirs_of_def files_of_def)
next
  case (Cons r rs)
  obtain c d f where r: "r = (c, d, f)" by (cases r) auto
  have ih: "dirs_of rs = dirs_of (filter (\<lambda>r. is_subdir (fst r)) rs) \<and>
         files_of rs = int (length (filter (\<lambda>r. is_file (fst r)) rs)) +
                        files_of (filter (\<lambda>r. is_subdir (fst r)) rs)"
    by (rule Cons.IH) (rule Cons.prems, simp)
  have "(\<not> is_file c \<and> \<not> is_subdir c \<and> d = 0 \<and> f = 0) \<or>
         (is_file c \<and> \<not> is_subdir c \<and> d = 0 \<and> f = 1) \<or>
         (is_subdir c \<and> \<not> is_file c)"
    by (rule Cons.prems) (simp add: r)
  with ih r show ?case by (auto simp: dirs_of_def files_of_def)
qed

lemma visit_names_kept_conv:
  assumes "visit_names (Visit k w opts) w opts node names (ns, vp, dirs, files) = Some r"
  shows "\<exists>rs. kept_children k w opts node names = Some rs"
  using assms
proof (induction names arbitrary: ns vp dirs files)
  case Nil
  show ?case by simp
next
  case (Cons name names)
  show ?case
  proof (cases "hidden opts name")
    case True
    with Cons.prems have "visit_names (Visit k w opts) w opts node names (ns, vp, dirs, files) = Some r"
      by (simp add: visit_names_hidden)
    from Cons.IH[OF this] True show ?thesis by (simp add: kept_children_hidden)
  next
    case False
    let ?c = "Node None (filepath_Join w (path node) name) (depth node + 1) None []"
    from Cons.prems False obtain r0 where r0: "Visit k w opts ?c vp = Some r0"
      by (cases "Visit k w opts ?c vp") (simp_all add: visit_names_stuck)
    from Visit_Return[OF r0] obtain c vp1 d f where
      c: "r0 = Return (c, vp1, d, f)" "err c = None \<longrightarrow> FileInfo c \<noteq> None"
      by (elim exE conjE)
    have "\<exists>b. skip_child w opts name c = Return b" using c(2) by (rule skip_child_Return)
    then obtain b where b: "skip_child w opts name c = Return b" by (elim exE)
    from Visit_vpaths[of k w opts ?c vp] r0 c(1) obtain V where
      c0: "Visit k w opts ?c {} = Some (Return (c, V, d, f))"
      by (cases "Visit k w opts ?c {}") (auto simp: with_vpaths_def split: outcome.splits)
    have "visit_names (Visit k w opts) w opts node names
       (if b then (ns, vp1, dirs, files) else (ns @ [c], vp1, dirs + d, files + f)) = Some r"
      using Cons.prems visit_names_step[where visit="Visit k w opts", OF False r0[unfolded c(1)] b, of names ns dirs files]
      by simp
    then have "\<exists>rs. kept_children k w opts node names = Some rs"
    proof (cases b)
      case True
      assume "visit_names (Visit k w opts) w opts node names
       (if b then (ns, vp1, dirs, files) else (ns @ [c], vp1, dirs + d, files + f)) = Some r"
      with True have "visit_names (Visit k w opts) w opts node names (ns, vp1, dirs, files) = Some r" by simp
      then show ?thesis by (rule Cons.IH)
    next
      case False
      assume "visit_names (Visit k w opts) w opts node names
       (if b then (ns, vp1, dirs, files) else (ns @ [c], vp1, dirs + d, files + f)) = Some r"
      with False have "visit_names (Visit k w opts) w opts node names (ns @ [c], vp1, dirs + d, files + f) = Some r" by simp
      then show ?thesis by (rule Cons.IH)
    qed
    then obtain rs where "kept_children k w opts node names = Some rs" by (elim exE)
    with kept_children_step[OF False c0 b, of names] show ?thesis by (cases b) simp_all
  qed
qed

lemma kept_children_node:
  "path n = path n' \<Longrightarrow> depth n = depth n' \<Longrightarrow>
   kept_children k w opts n xs = kept_children k w opts n' xs"
  by (induction xs)
     (auto simp: kept_children.simps(2) split: option.splits outcome.splits bool.splits)

text \<open>
  Claim C1. Take a node whose \<open>Stat\<close> succeeds with a directory that is not cut off by the
  depth limit and whose listing succeeds, and let \<open>rs\<close> be the children kept after the
  hidden-file and content filters, each with the counts \<open>Visit\<close> returned for it. Then \<open>Visit\<close>
  returns; its file count is the number of kept non-directory children plus the file
  counts of the kept subdirectories, its directory count is 1 plus the directory counts of
  the kept subdirectories, and the node's children are \<open>rs\<close> (sorted unless no-sort is set).
  \<open>Visit\<close> with fuel \<open>k + 1\<close> returns exactly when every child's \<open>Visit\<close> returns with fuel \<open>k\<close>.
  A node that is not a directory returns \<open>(0, 1)\<close>; a node whose \<open>Stat\<close> or listing fails
  returns \<open>(0, 0)\<close> and carries the error.
\<close>

theorem Visit_counts:
  "(Stat (Fs opts) (path node) = Inr fi \<and> IsDir fi \<and>
      \<not> (DeepLevel opts > 0 \<and> DeepLevel opts \<le> depth node) \<and>
      ReadDir (Fs opts) (path node) = Inr names \<longrightarrow>
      (kept_children k w opts node names = Some rs \<longrightarrow>
        (\<exists>node' vp'.
           Visit (Suc k) w opts node vp =
             Some (Return (node', vp',
               1 + dirs_of (filter (\<lambda>r. is_subdir (fst r)) rs),
               int (length (filter (\<lambda>r. is_file (fst r)) rs)) +
                 files_of (filter (\<lambda>r. is_subdir (fst r)) rs))) \<and>
           nodes node' = (if NoSort opts then map fst rs else sort_nodes w opts (map fst rs)))) \<and>
      (kept_children k w opts node names = None \<longrightarrow> Visit (Suc k) w opts node vp = None)) \<and>
   (Stat (Fs opts) (path node) = Inr fi \<and> \<not> IsDir fi \<longrightarrow>
      (\<exists>node' vp'. Visit (Suc k) w opts node vp = Some (Return (node', vp', 0, 1)))) \<and>
   (Stat (Fs opts) (path node) = Inl e \<longrightarrow>
      (\<exists>node' vp'. Visit (Suc k) w opts node vp = Some (Return (node', vp', 0, 0)) \<and>
         err node' = Some e)) \<and>
   (Stat (Fs opts) (path node) = Inr fi \<and> IsDir fi \<and>
      \<not> (DeepLevel opts > 0 \<and> DeepLevel opts \<le> depth node) \<and>
      ReadDir (Fs opts) (path node) = Inl e \<longrightarrow>
      (\<exists>node' vp'. Visit (Suc k) w opts node vp = Some (Return (node', vp', 0, 0)) \<and>
         err node' = Some e))"
proof -
  have dir: "\<exists>node' vp'.
           Visit (Suc k) w opts node vp =
             Some (Return (node', vp',
               1 + dirs_of (filter (\<lambda>r. is_subdir (fst r)) rs),
               int (length (filter (\<lambda>r. is_file (fst r)) rs)) +
                 files_of (filter (\<lambda>r. is_subdir (fst r)) rs))) \<and>
           nodes node' = (if NoSort opts then map fst rs else sort_nodes w opts (map fst rs))"
    if st: "Stat (Fs opts) (path node) = Inr fi" and d: "IsDir fi"
      and nd: "\<not> (DeepLevel opts > 0 \<and> DeepLevel opts \<le> depth node)"
      and rd: "ReadDir (Fs opts) (path node) = Inr names"
      and kc: "kept_children k w opts node names = Some rs"
  proof -
    let ?node = "Node (Some fi) (path node) (depth node) (err node) []"
    have kc': "kept_children k w opts ?node names = Some rs"
      using kc kept_children_node[of ?node node k w opts names] by simp
    from visit_names_kept[OF kc', of "[]" "record_path w (path node) vp" 0 0] obtain vp' where
      loop: "visit_names (Visit k w opts) w opts ?node names ([], record_path w (path node) vp, 0, 0) =
           Some (Return (map fst rs, vp', dirs_of rs, files_of rs))"
      by auto
    have cs: "dirs_of rs = dirs_of (filter (\<lambda>r. is_subdir (fst r)) rs) \<and>
         files_of rs = int (length (filter (\<lambda>r. is_file (fst r)) rs)) +
                        files_of (filter (\<lambda>r. is_subdir (fst r)) rs)"
      by (rule counts_split) (rule kept_children_cases[OF kc])
    show ?thesis
      unfolding Visit_dir[OF st d nd rd] loop using cs by simp
  qed
  have stuck: "Visit (Suc k) w opts node vp = None"
    if st: "Stat (Fs opts) (path node) = Inr fi" and d: "IsDir fi"
      and nd: "\<not> (DeepLevel opts > 0 \<and> DeepLevel opts \<le> depth node)"
      and rd: "ReadDir (Fs opts) (path node) = Inr names"
      and kc: "kept_children k w opts node names = None"
  proof -
    let ?node = "Node (Some fi) (path node) (depth node) (err node) []"
    let ?loop = "visit_names (Visit k w opts) w opts ?node names ([], record_path w (path node) vp, 0, 0)"
    have kc': "kept_children k w opts ?node names = None"
      using kc kept_children_node[of ?node node k w opts names] by simp
    have "?loop = None"
    proof (cases ?loop)
      case None
      then show ?thesis .
    next
      case (Some r)
      from visit_names_kept_conv[OF Some] kc' show ?thesis by simp
    qed
    then show ?thesis unfolding Visit_dir[OF st d nd rd] by simp
  qed
  show ?thesis
    using dir stuck
    by (auto simp: Visit_not_dir Visit_stat_failed Visit_readdir_failed)
qed

theorem Visit_counts_witness:
  "(\<exists>node' vp'. Visit 3 demo_world demo_opts (New ''/r'') {} = Some (Return (node', vp', 2, 3)) \<and>
      nodes node' =
        [Node (Some (a_file ''a.go'' 1536)) ''/r/a.go'' 1 None [],
         Node (Some (a_file ''b.py'' 10)) ''/r/b.py'' 1 None [],
         Node (Some (a_dir ''d'')) ''/r/d'' 1 None
           [Node (Some (a_file ''c.go'' 20)) ''/r/d/c.go'' 2 None []],
         Node None ''/r/x'' 1 (Some ''lstat /r/x: permission denied'') []]) \<and>
   (\<exists>node' vp'. Visit 1 demo_world demo_opts (New ''/r/a.go'') {} = Some (Return (node', vp', 0, 1))) \<and>
   (\<exists>node' vp'. Visit 1 demo_world demo_opts (New ''/r/x'') {} = Some (Return (node', vp', 0, 0)) \<and>
      err node' = Some ''lstat /r/x: permission denied'') \<and>
   (\<exists>node' vp'. Visit 1 demo_world demo_opts (New ''/q'') {} = Some (Return (node', vp', 0, 0)) \<and>
      err node' = Some ''open /q: permission denied'')"
proof -
  let ?names = "[''a.go'', ''b.py'', ''d'', ''x'', ''.hid'']"
  let ?rs = "[(Node (Some (a_file ''a.go'' 1536)) ''/r/a.go'' 1 None [], 0, 1),
        (Node (Some (a_file ''b.py'' 10)) ''/r/b.py'' 1 None [], 0, 1),
        (Node (Some (a_dir ''d'')) ''/r/d'' 1 None [Node (Some (a_file ''c.go'' 20)) ''/r/d/c.go'' 2 None []], 1, 1),
        (Node None ''/r/x'' 1 (Some ''lstat /r/x: permission denied'') [], 0::int, 0::int)]"
  have h1: "Stat (Fs demo_opts) (path (New ''/r'')) = Inr (a_dir ''r'') \<and> IsDir (a_dir ''r'') \<and>
      \<not> (DeepLevel demo_opts > 0 \<and> DeepLevel demo_opts \<le> depth (New ''/r'')) \<and>
      ReadDir (Fs demo_opts) (path (New ''/r'')) = Inr ?names"
    by code_simp
  have h2: "kept_children 2 demo_world demo_opts (New ''/r'') ?names = Some ?rs"
    by code_simp
  have v: "1 + dirs_of (filter (\<lambda>r. is_subdir (fst r)) ?rs) = 2"
    "int (length (filter (\<lambda>r. is_file (fst r)) ?rs)) + files_of (filter (\<lambda>r. is_subdir (fst r)) ?rs) = 3"
    "NoSort demo_opts = False"
    "sort_nodes demo_world demo_opts [Node (Some (a_file ''a.go'' 1536)) ''/r/a.go'' 1 None [],
         Node (Some (a_file ''b.py'' 10)) ''/r/b.py'' 1 None [],
         Node (Some (a_dir ''d'')) ''/r/d'' 1 None
           [Node (Some (a_file ''c.go'' 20)) ''/r/d/c.go'' 2 None []],
         Node None ''/r/x'' 1 (Some ''lstat /r/x: permission denied'') []] = map fst ?rs"
    "map fst ?rs = [Node (Some (a_file ''a.go'' 1536)) ''/r/a.go'' 1 None [],
         Node (Some (a_file ''b.py'' 10)) ''/r/b.py'' 1 None [],
         Node (Some (a_dir ''d'')) ''/r/d'' 1 None
           [Node (Some (a_file ''c.go'' 20)) ''/r/d/c.go'' 2 None []],
         Node None ''/r/x'' 1 (Some ''lstat /r/x: permission denied'') []]"
    by code_simp+
  have three: "Suc 2 = 3" "Suc 0 = 1" by simp_all
  have c1: "\<exists>node' vp'. Visit 3 demo_world demo_opts (New ''/r'') {} = Some (Return (node', vp', 2, 3)) \<and>
      nodes node' =
        [Node (Some (a_file ''a.go'' 1536)) ''/r/a.go'' 1 None [],
         Node (Some (a_file ''b.py'' 10)) ''/r/b.py'' 1 None [],
         Node (Some (a_dir ''d'')) ''/r/d'' 1 None
           [Node (Some (a_file ''c.go'' 20)) ''/r/d/c.go'' 2 None []],
         Node None ''/r/x'' 1 (Some ''lstat /r/x: permission denied'') []]"
    using Visit_counts[of demo_opts "New ''/r''" "a_dir ''r''" ?names 2 demo_world ?rs "{}" "''''"] h1 h2
    unfolding v three by (simp add: v)
  have h3: "Stat (Fs demo_opts) (path (New ''/r/a.go'')) = Inr (a_file ''a.go'' 1536) \<and>
      \<not> IsDir (a_file ''a.go'' 1536)" by code_simp
  have c2: "\<exists>node' vp'. Visit 1 demo_world demo_opts (New ''/r/a.go'') {} = Some (Return (node', vp', 0, 1))"
    using Visit_counts[of demo_opts "New ''/r/a.go''" "a_file ''a.go'' 1536" "[]" 0 demo_world "[]" "{}" "''''"] h3
    unfolding three by simp
  have h4: "Stat (Fs demo_opts) (path (New ''/r/x'')) = Inl ''lstat /r/x: permission denied''" by code_simp
  have c3: "\<exists>node' vp'. Visit 1 demo_world demo_opts (New ''/r/x'') {} = Some (Return (node', vp', 0, 0)) \<and>
      err node' = Some ''lstat /r/x: permission denied''"
    using Visit_counts[of demo_opts "New ''/r/x''" "a_dir ''r''" "[]" 0 demo_world "[]" "{}" "''lstat /r/x: permission denied''"] h4
    unfolding three by simp
  have h5: "Stat (Fs demo_opts) (path (New ''/q'')) = Inr (a_dir ''q'') \<and> IsDir (a_dir ''q'') \<and>
      \<not> (DeepLevel demo_opts > 0 \<and> DeepLevel demo_opts \<le> depth (New ''/q'')) \<and>
      ReadDir (Fs demo_opts) (path (New ''/q'')) = Inl ''open /q: permission denied''" by code_simp
  have c4: "\<exists>node' vp'. Visit 1 demo_world demo_opts (New ''/q'') {} = Some (Return (node', vp', 0, 0)) \<and>
      err node' = Some ''open /q: permission denied''"
    using Visit_counts[of demo_opts "New ''/q''" "a_dir ''q''" "[]" 0 demo_world "[]" "{}" "''open /q: permission denied''"] h5
    unfolding three by simp
  show ?thesis using c1 c2 c3 c4 by (intro conjI)
qed






lemma Visit_dir_kept:
  assumes st: "Stat (Fs opts) (path node) = Inr fi" and d: "IsDir fi"
      and nd: "\<not> (DeepLevel opts > 0 \<and> DeepLevel opts \<le> depth node)"
      and rd: "ReadDir (Fs opts) (path node) = Inr names"
      and kc: "kept_children k w opts node names = Some rs"
  shows "\<exists>vp'. Visit (Suc k) w opts node vp =
           Some (Return (Node (Some fi) (path node) (depth node) (err node)
                   (if NoSort opts then map fst rs else sort_nodes w opts (map fst rs)),
                 vp', dirs_of rs + 1, files_of rs))"
proof -
  let ?node = "Node (Some fi) (path node) (depth node) (err node) []"
  have kc': "kept_children k w opts ?node names = Some rs"
    using kc kept_children_node[of ?node node k w opts names] by simp
  from visit_names_kept[OF kc', of "[]" "record_path w (path node) vp" 0 0] obtain vp' where
    loop: "visit_names (Visit k w opts) w opts ?node names ([], record_path w (path node) vp, 0, 0) =
         Some (Return (map fst rs, vp', dirs_of rs, files_of rs))"
    by auto
  show ?thesis unfolding Visit_dir[OF st d nd rd] loop by simp
qed



lemma precedes_Cons_mono: "precedes a b xs \<Longrightarrow> precedes a b (x # xs)"
  by simp

lemma set_move_left: "set (move_left lt x rs) = insert x (set rs)"
  by (induction rs) auto



lemma foldl_move_left_set:
  "set (foldl (\<lambda>rs x. move_left lt x rs) rs xs) = set rs \<union> set xs"
  by (induction xs arbitrary: rs) (auto simp: set_move_left)



lemma insertionSort_set: "set (insertionSort lt xs) = set xs"
  by (simp add: insertionSort_def foldl_move_left_set)





section \<open>Properties of rendering\<close>

declare print.simps(2) [simp del]
declare print_nodes.simps(2) [simp del]

lemma print_error:
  "err node = Some e \<Longrightarrow>
   print (Suc k) w opts indent node st =
     Some (Return (node, emit Stdout (path node @ '' ['' @ short_error e @ '']'' @ [CHR 0x0A]) st))"
  by (simp add: print.simps(2))

lemma Split_colon_no_sep: "\<not> has_sep s \<Longrightarrow> Split_colon p s = [rev p @ s]"
  by (induction s arbitrary: p) auto

lemma Split_colon_sep:
  "\<not> has_sep a \<Longrightarrow> Split_colon p (a @ '': '' @ t) = (rev p @ a) # Split_colon [] t"
proof (induction a arbitrary: p)
  case Nil
  show ?case by simp
next
  case (Cons c cs)
  then have ns: "\<not> has_sep cs" and nc: "\<not> (c = CHR '':'' \<and> cs \<noteq> [] \<and> hd cs = CHR '' '')" by auto
  have "\<not> (c = CHR '':'' \<and> cs @ '': '' @ t \<noteq> [] \<and> hd (cs @ '': '' @ t) = CHR '' '')"
    using nc by (cases cs) auto
  then have "Split_colon p ((c # cs) @ '': '' @ t) = Split_colon (c # p) (cs @ '': '' @ t)"
    by auto
  with Cons.IH[OF ns, of "c # p"] show ?case by simp
qed

lemma short_error_no_sep: "\<not> has_sep e \<Longrightarrow> short_error e = e"
  by (simp add: short_error_def Split_colon_no_sep)

lemma short_error_second:
  assumes "\<not> has_sep a" "\<not> has_sep b" "t = [] \<or> (\<exists>t'. t = '': '' @ t')"
  shows "short_error (a @ '': '' @ b @ t) = b"
proof -
  have 1: "Split_colon [] (a @ '': '' @ b @ t) = a # Split_colon [] (b @ t)"
    using Split_colon_sep[OF assms(1), of "[]" "b @ t"] by simp
  have "\<exists>rest. Split_colon [] (b @ t) = b # rest"
  proof (cases "t = []")
    case True
    then show ?thesis using Split_colon_no_sep[OF assms(2), of "[]"] by simp
  next
    case False
    with assms(3) obtain t' where "t = '': '' @ t'" by auto
    then show ?thesis using Split_colon_sep[OF assms(2), of "[]" t'] by simp
  qed
  then obtain rest where 2: "Split_colon [] (b @ t) = b # rest" by (elim exE)
  show ?thesis unfolding short_error_def 1 2 by simp
qed

lemma after_first_sep_one:
  "\<not> has_sep a \<Longrightarrow> after_first_sep (a @ '': '' @ t) = t"
proof (induction a)
  case Nil
  show ?case by simp
next
  case (Cons c cs)
  then have ns: "\<not> has_sep cs" and nc: "\<not> (c = CHR '':'' \<and> cs \<noteq> [] \<and> hd cs = CHR '' '')" by auto
  have "\<not> (c = CHR '':'' \<and> cs @ '': '' @ t \<noteq> [] \<and> hd (cs @ '': '' @ t) = CHR '' '')"
    using nc by (cases cs) auto
  then have "after_first_sep ((c # cs) @ '': '' @ t) = after_first_sep (cs @ '': '' @ t)"
    by auto
  with Cons.IH[OF ns] show ?case by simp
qed

lemma Visit_fresh_error:
  assumes "Visit k w opts (Node None p dep None []) vp = Some (Return (c, vp', d, f))"
    and "err c \<noteq> None"
  shows "d = 0 \<and> f = 0 \<and> nodes c = []"
proof (cases k)
  case 0
  with assms show ?thesis by simp
next
  case (Suc j)
  let ?n = "Node None p dep None []"
  show ?thesis
  proof (cases "Stat (Fs opts) p")
    case (Inl e)
    then have "Stat (Fs opts) (path ?n) = Inl e" by simp
    from Visit_stat_failed[OF this, of j w vp] assms Suc show ?thesis by auto
  next
    case (Inr fi)
    then have st: "Stat (Fs opts) (path ?n) = Inr fi" by simp
    show ?thesis
    proof (cases "IsDir fi")
      case False
      from Visit_not_dir[OF st False, of j w vp] assms Suc show ?thesis by auto
    next
      case True
      show ?thesis
      proof (cases "DeepLevel opts > 0 \<and> DeepLevel opts \<le> depth ?n")
        case True
        from Visit_depth_limit[OF st \<open>IsDir fi\<close> True, of j w vp] assms Suc show ?thesis by auto
      next
        case False
        note nd = False
        show ?thesis
        proof (cases "ReadDir (Fs opts) (path ?n)")
          case (Inl e)
          from Visit_readdir_failed[OF st \<open>IsDir fi\<close> nd Inl, of j w vp] assms Suc show ?thesis by auto
        next
          case (Inr names)
          from Visit_dir[OF st \<open>IsDir fi\<close> nd Inr, of j w vp] assms Suc show ?thesis
            by (auto split: option.splits outcome.splits)
        qed
      qed
    qed
  qed
qed

lemma kept_children_error_entry:
  assumes pre: "kept_children k w opts node pre = Some rs1"
    and post: "kept_children k w opts node post = Some rs2"
    and nh: "\<not> hidden opts x"
    and cv: "Visit k w opts (Node None (filepath_Join w (path node) x) (depth node + 1) None []) {}
               = Some (Return (c, V, d, f))"
    and ce: "err c \<noteq> None"
  shows "kept_children k w opts node (pre @ x # post) = Some (rs1 @ (c, 0, 0) # rs2)"
proof -
  from Visit_fresh_error[OF cv ce] have z: "d = 0" "f = 0" by auto
  have sk: "skip_child w opts x c = Return False" using ce by (auto simp: skip_child_def)
  have "kept_children k w opts node (x # post) = Some ((c, 0, 0) # rs2)"
    using kept_children_step[OF nh cv sk, of post] post z by simp
  from kept_children_append[OF pre this] show ?thesis .
qed

text \<open>
  Claim C6, as the code has it. For a node with an error, \<open>print\<close> writes the single line
  \<^verbatim>\<open><path> [<short-error>]\<close>, returns the node as it is (no child is rendered) and leaves
  the visited paths alone. The short error is the second piece of the error text split at
  \<^verbatim>\<open>": "\<close>: the whole text when it has no separator, otherwise the text between the first
  separator and the next one (or the end). For a text with one separator this is what
  follows the separator. In \<open>Visit\<close>, an entry whose traversal ends with an error is attached
  to its parent among its siblings, adds \<open>(0, 0)\<close> to the counts and has no children; the
  siblings before and after it are attached and counted as without it.
\<close>

theorem error_nodes:
  "(err node = Some e \<longrightarrow>
      (\<exists>st'. print (Suc k) w opts indent node st = Some (Return (node, st')) \<and>
         map snd (written st') =
           map snd (written st) @ [path node @ '' ['' @ short_error e @ '']'' @ [CHR 0x0A]] \<and>
         visited st' = visited st)) \<and>
   (\<not> has_sep e \<longrightarrow> short_error e = e) \<and>
   (\<not> has_sep a \<and> \<not> has_sep b \<and> (t = [] \<or> (\<exists>t'. t = '': '' @ t')) \<longrightarrow>
      short_error (a @ '': '' @ b @ t) = b) \<and>
   (\<not> has_sep a \<and> \<not> has_sep b \<longrightarrow>
      short_error (a @ '': '' @ b) = after_first_sep (a @ '': '' @ b)) \<and>
   (Stat (Fs opts) (path dir) = Inr fi \<and> IsDir fi \<and>
      \<not> (DeepLevel opts > 0 \<and> DeepLevel opts \<le> depth dir) \<and>
      ReadDir (Fs opts) (path dir) = Inr (pre @ x # post) \<and>
      kept_children k w opts dir pre = Some rs1 \<and>
      kept_children k w opts dir post = Some rs2 \<and>
      \<not> hidden opts x \<and>
      Visit k w opts (Node None (filepath_Join w (path dir) x) (depth dir + 1) None []) {}
        = Some (Return (c, V, d, f)) \<and>
      err c \<noteq> None \<longrightarrow>
      d = 0 \<and> f = 0 \<and> nodes c = [] \<and>
      (\<exists>dir' vp'.
         Visit (Suc k) w opts dir vp =
           Some (Return (dir', vp', dirs_of (rs1 @ rs2) + 1, files_of (rs1 @ rs2))) \<and>
         nodes dir' = (if NoSort opts then map fst rs1 @ c # map fst rs2
                       else sort_nodes w opts (map fst rs1 @ c # map fst rs2))))"
proof -
  have p: "\<exists>st'. print (Suc k) w opts indent node st = Some (Return (node, st')) \<and>
         map snd (written st') =
           map snd (written st) @ [path node @ '' ['' @ short_error e @ '']'' @ [CHR 0x0A]] \<and>
         visited st' = visited st" if "err node = Some e"
    unfolding print_error[OF that] by (simp add: emit_def)
  have s2: "short_error (a @ '': '' @ b) = after_first_sep (a @ '': '' @ b)"
    if "\<not> has_sep a" "\<not> has_sep b"
    using short_error_second[OF that, of "[]"] after_first_sep_one[OF that(1), of b] by simp
  have v: "d = 0 \<and> f = 0 \<and> nodes c = [] \<and>
      (\<exists>dir' vp'.
         Visit (Suc k) w opts dir vp =
           Some (Return (dir', vp', dirs_of (rs1 @ rs2) + 1, files_of (rs1 @ rs2))) \<and>
         nodes dir' = (if NoSort opts then map fst rs1 @ c # map fst rs2
                       else sort_nodes w opts (map fst rs1 @ c # map fst rs2)))"
    if st: "Stat (Fs opts) (path dir) = Inr fi" and d: "IsDir fi"
      and nd: "\<not> (DeepLevel opts > 0 \<and> DeepLevel opts \<le> depth dir)"
      and rd: "ReadDir (Fs opts) (path dir) = Inr (pre @ x # post)"
      and pre: "kept_children k w opts dir pre = Some rs1"
      and post: "kept_children k w opts dir post = Some rs2"
      and nh: "\<not> hidden opts x"
      and cv: "Visit k w opts (Node None (filepath_Join w (path dir) x) (depth dir + 1) None []) {}
                 = Some (Return (c, V, d, f))"
      and ce: "err c \<noteq> None"
  proof -
    note kc = kept_children_error_entry[OF pre post nh cv ce]
    from Visit_dir_kept[OF st d nd rd kc, of vp] obtain vp' where
      "Visit (Suc k) w opts dir vp =
           Some (Return (Node (Some fi) (path dir) (depth dir) (err dir)
                   (if NoSort opts then map fst (rs1 @ (c, 0, 0) # rs2)
                    else sort_nodes w opts (map fst (rs1 @ (c, 0, 0) # rs2))),
                 vp', dirs_of (rs1 @ (c, 0, 0) # rs2) + 1, files_of (rs1 @ (c, 0, 0) # rs2)))"
      by (elim exE)
    moreover have "dirs_of (rs1 @ (c, 0, 0) # rs2) = dirs_of (rs1 @ rs2)"
      "files_of (rs1 @ (c, 0, 0) # rs2) = files_of (rs1 @ rs2)"
      by (simp_all add: dirs_of_def files_of_def)
    ultimately show ?thesis using Visit_fresh_error[OF cv ce] by simp
  qed
  show ?thesis
    using p short_error_no_sep[of e] short_error_second[of a b t] s2 v by blast
qed

theorem error_nodes_witness:
  "(\<exists>st'. print 3 demo_world demo_opts ''''
             (Node None ''/r/x'' 1 (Some ''lstat /r/x: permission denied'') []) start =
           Some (Return (Node None ''/r/x'' 1 (Some ''lstat /r/x: permission denied'') [], st')) \<and>
         map snd (written st') = [''/r/x [permission denied]'' @ [CHR 0x0A]]) \<and>
   short_error ''nope'' = ''nope'' \<and>
   short_error ''lstat /r/x: permission denied'' = ''permission denied'' \<and>
   after_first_sep ''lstat /r/x: permission denied'' = ''permission denied'' \<and>
   (\<exists>dir' vp'. Visit 3 demo_world demo_opts (New ''/r'') {} = Some (Return (dir', vp', 2, 3)) \<and>
      nodes dir' =
        [Node (Some (a_file ''a.go'' 1536)) ''/r/a.go'' 1 None [],
         Node (Some (a_file ''b.py'' 10)) ''/r/b.py'' 1 None [],
         Node (Some (a_dir ''d'')) ''/r/d'' 1 None
           [Node (Some (a_file ''c.go'' 20)) ''/r/d/c.go'' 2 None []],
         Node None ''/r/x'' 1 (Some ''lstat /r/x: permission denied'') []])"
proof -
  let ?e = "''lstat /r/x: permission denied''"
  let ?x = "Node None ''/r/x'' 1 (Some ?e) []"
  let ?rs1 = "[(Node (Some (a_file ''a.go'' 1536)) ''/r/a.go'' 1 None [], 0, 1),
        (Node (Some (a_file ''b.py'' 10)) ''/r/b.py'' 1 None [], 0, 1),
        (Node (Some (a_dir ''d'')) ''/r/d'' 1 None [Node (Some (a_file ''c.go'' 20)) ''/r/d/c.go'' 2 None []], 1::int, 1::int)]"
  note T1 = error_nodes[where node="?x" and e="?e" and k=2 and w=demo_world and opts=demo_opts
      and indent="''''" and st=start and a="''lstat /r/x''" and b="''permission denied''" and t="[]"
      and dir="New ''/r''" and fi="a_dir ''r''" and pre="[''a.go'', ''b.py'', ''d'']" and x="''x''"
      and post="[''.hid'']" and ?rs1.0="?rs1" and ?rs2.0="[]" and c="?x" and V="{''/r/x''}" and d=0 and f=0
      and vp="{}"]
  note T2 = error_nodes[where e="''nope''", THEN conjunct2, THEN conjunct1]
  have three: "Suc 2 = 3" by simp
  have h1: "err ?x = Some ?e" by simp
  from T1 h1 obtain st' where
    p: "print (Suc 2) demo_world demo_opts '''' ?x start = Some (Return (?x, st'))"
       "map snd (written st') = map snd (written start) @ [path ?x @ '' ['' @ short_error ?e @ '']'' @ [CHR 0x0A]]"
    by blast
  have w0: "map snd (written start) @ [path ?x @ '' ['' @ short_error ?e @ '']'' @ [CHR 0x0A]]
             = [''/r/x [permission denied]'' @ [CHR 0x0A]]"
    by code_simp
  have c1: "\<exists>st'. print 3 demo_world demo_opts '''' ?x start = Some (Return (?x, st')) \<and>
         map snd (written st') = [''/r/x [permission denied]'' @ [CHR 0x0A]]"
    using p[unfolded three w0] by (intro exI conjI)
  have h2: "\<not> has_sep ''nope''" by code_simp
  from T2 h2 have c2: "short_error ''nope'' = ''nope''" by (rule mp)
  have h3: "\<not> has_sep ''lstat /r/x'' \<and> \<not> has_sep ''permission denied''" by code_simp
  from T1 h3 have c3: "short_error (''lstat /r/x'' @ '': '' @ ''permission denied'' @ []) = ''permission denied''"
    by blast
  from T1 h3 have c4: "short_error (''lstat /r/x'' @ '': '' @ ''permission denied'') =
      after_first_sep (''lstat /r/x'' @ '': '' @ ''permission denied'')"
    by blast
  have h5: "Stat (Fs demo_opts) (path (New ''/r'')) = Inr (a_dir ''r'') \<and> IsDir (a_dir ''r'') \<and>
      \<not> (DeepLevel demo_opts > 0 \<and> DeepLevel demo_opts \<le> depth (New ''/r'')) \<and>
      ReadDir (Fs demo_opts) (path (New ''/r'')) = Inr ([''a.go'', ''b.py'', ''d''] @ ''x'' # [''.hid'']) \<and>
      kept_children 2 demo_world demo_opts (New ''/r'') [''a.go'', ''b.py'', ''d''] = Some ?rs1 \<and>
      kept_children 2 demo_world demo_opts (New ''/r'') [''.hid''] = Some [] \<and>
      \<not> hidden demo_opts ''x'' \<and>
      Visit 2 demo_world demo_opts
        (Node None (filepath_Join demo_world (path (New ''/r'')) ''x'') (depth (New ''/r'') + 1) None []) {}
        = Some (Return (?x, {''/r/x''}, 0, 0)) \<and>
      err ?x \<noteq> None"
    by code_simp
  note T5 = T1[THEN conjunct2, THEN conjunct2, THEN conjunct2, THEN conjunct2, THEN mp, OF h5,
      THEN conjunct2, THEN conjunct2, THEN conjunct2]
  have w1: "dirs_of (?rs1 @ []) + 1 = 2" "files_of (?rs1 @ []) = 3"
    "(if NoSort demo_opts then map fst ?rs1 @ ?x # map fst []
                       else sort_nodes demo_world demo_opts (map fst ?rs1 @ ?x # map fst []))
     = [Node (Some (a_file ''a.go'' 1536)) ''/r/a.go'' 1 None [],
         Node (Some (a_file ''b.py'' 10)) ''/r/b.py'' 1 None [],
         Node (Some (a_dir ''d'')) ''/r/d'' 1 None
           [Node (Some (a_file ''c.go'' 20)) ''/r/d/c.go'' 2 None []],
         Node None ''/r/x'' 1 (Some ''lstat /r/x: permission denied'') []]"
    by code_simp+
  have c5: "\<exists>dir' vp'. Visit 3 demo_world demo_opts (New ''/r'') {} = Some (Return (dir', vp', 2, 3)) \<and>
      nodes dir' =
        [Node (Some (a_file ''a.go'' 1536)) ''/r/a.go'' 1 None [],
         Node (Some (a_file ''b.py'' 10)) ''/r/b.py'' 1 None [],
         Node (Some (a_dir ''d'')) ''/r/d'' 1 None
           [Node (Some (a_file ''c.go'' 20)) ''/r/d/c.go'' 2 None []],
         Node None ''/r/x'' 1 (Some ''lstat /r/x: permission denied'') []]"
    using T5[unfolded three w1] .
  from c1 c2 c3 c4 c5 show ?thesis by simp
qed

text \<open>
  Claim C6 as stated takes the short error to be everything after the first separator. For
  the error of opening a file named \<^verbatim>\<open>a: b\<close> the code prints \<^verbatim>\<open>b\<close>, not
  \<^verbatim>\<open>b: permission denied\<close>.
\<close>

theorem error_nodes_counterexample:
  "short_error ''open /r/a: b: permission denied'' = ''b'' \<and>
   after_first_sep ''open /r/a: b: permission denied'' = ''b: permission denied'' \<and>
   Print 1 demo_world demo_opts
       (Node None ''/r/a: b'' 1 (Some ''open /r/a: b: permission denied'') []) start =
     Some (Return (Node None ''/r/a: b'' 1 (Some ''open /r/a: b: permission denied'') [],
            \<lparr>visited = {}, written = [(Stdout, ''/r/a: b [b]'' @ [CHR 0x0A])]\<rparr>))"
  by code_simp

text \<open>
  Claim C7 says that every line, error lines included, goes to \<^verbatim>\<open>Options.OutFile\<close>. The
  error line is written with \<^verbatim>\<open>fmt.Printf\<close>, to the standard output: rendering the root
  \<^verbatim>\<open>/r/x\<close>, which cannot be statted, writes nothing to \<open>OutFile\<close>.
\<close>

theorem error_line_sink:
  "Visit 1 demo_world demo_opts (New ''/r/x'') {} =
     Some (Return (Node None ''/r/x'' 0 (Some ''lstat /r/x: permission denied'') [],
            {''/r/x''}, 0, 0)) \<and>
   Print 1 demo_world demo_opts
       (Node None ''/r/x'' 0 (Some ''lstat /r/x: permission denied'') [])
       \<lparr>visited = {''/r/x''}, written = []\<rparr> =
     Some (Return (Node None ''/r/x'' 0 (Some ''lstat /r/x: permission denied'') [],
            \<lparr>visited = {''/r/x''},
             written = [(Stdout, ''/r/x [permission denied]'' @ [CHR 0x0A])]\<rparr>))"
  by code_simp

text \<open>
  Claim C10. For a node without error that is not a directory, \<open>print\<close> asserts that
  \<^verbatim>\<open>node.Sys()\<close> is a \<^verbatim>\<open>*syscall.Stat_t\<close> before it looks at any option: when \<open>Sys\<close> returns
  anything else, rendering panics, whatever the options are.
\<close>

theorem print_type_assertion:
  "err node = None \<Longrightarrow> FileInfo node = Some fi \<Longrightarrow> \<not> IsDir fi \<Longrightarrow> Sys fi = Sys_other \<Longrightarrow>
   print (Suc k) w opts indent node st = Some Panic"
  by (simp add: print.simps(2) file_props_def)

theorem print_type_assertion_witness:
  "\<not> (Inodes demo_opts \<or> Device demo_opts \<or> FileMode demo_opts \<or> ShowUid demo_opts \<or>
      ShowGid demo_opts \<or> ByteSize demo_opts \<or> UnitSize demo_opts \<or> LastMod demo_opts) \<and>
   print 1 demo_world demo_opts '''' (Node (Some ((a_file ''f'' 1)\<lparr>Sys := Sys_other\<rparr>)) ''/f'' 0 None [])
     start = Some Panic"
proof -
  have o: "\<not> (Inodes demo_opts \<or> Device demo_opts \<or> FileMode demo_opts \<or> ShowUid demo_opts \<or>
      ShowGid demo_opts \<or> ByteSize demo_opts \<or> UnitSize demo_opts \<or> LastMod demo_opts)"
    by code_simp
  have h: "err (Node (Some ((a_file ''f'' 1)\<lparr>Sys := Sys_other\<rparr>)) ''/f'' 0 None []) = None"
    "FileInfo (Node (Some ((a_file ''f'' 1)\<lparr>Sys := Sys_other\<rparr>)) ''/f'' 0 None [])
       = Some ((a_file ''f'' 1)\<lparr>Sys := Sys_other\<rparr>)"
    "\<not> IsDir ((a_file ''f'' 1)\<lparr>Sys := Sys_other\<rparr>)"
    "Sys ((a_file ''f'' 1)\<lparr>Sys := Sys_other\<rparr>) = Sys_other"
    by (simp_all add: a_file_def)
  from print_type_assertion[OF h, of 0 demo_world demo_opts "''''" start] o
  show ?thesis by simp
qed

section \<open>Properties of the colour classifier\<close>

lemma show_int_consts:
  "show_int Bold = ''1''" "show_int Reset = ''0''" "show_int Red = ''31''" "show_int Green = ''32''"
  "show_int Yellow = ''33''" "show_int Blue = ''34''" "show_int Magenta = ''35''"
  "show_int Cyan = ''36''" "show_int 0 = ''0''"
  by code_simp+

lemma wrap_bold_text:
  "wrap_bold Green s = Escape @ ''[1;32m'' @ s @ Escape @ ''[0m''"
  "wrap_bold Red s = Escape @ ''[1;31m'' @ s @ Escape @ ''[0m''"
  "wrap_bold Magenta s = Escape @ ''[1;35m'' @ s @ Escape @ ''[0m''"
  "wrap_bold Blue s = Escape @ ''[1;34m'' @ s @ Escape @ ''[0m''"
  "wrap_bold Cyan s = Escape @ ''[1;36m'' @ s @ Escape @ ''[0m''"
  "wrap_bold 0 s = Escape @ ''[1;0m'' @ s @ Escape @ ''[0m''"
  by (simp_all add: wrap_bold_def show_int_consts)

lemma wrap_bold_head: "take 3 (wrap_bold c s) = Escape @ ''[1''"
  by (simp add: wrap_bold_def show_int_consts Escape_def)

lemma ANSIColor_ext:
  assumes "FileInfo node = Some fi"
  shows "ext_of w fi \<in> set executable_exts \<Longrightarrow> ANSIColor w node s = Return (wrap_bold Green s)"
    and "ext_of w fi \<notin> set executable_exts \<Longrightarrow> ext_of w fi \<in> set archive_exts \<Longrightarrow>
           ANSIColor w node s = Return (wrap_bold Red s)"
    and "ext_of w fi \<notin> set executable_exts \<Longrightarrow> ext_of w fi \<notin> set archive_exts \<Longrightarrow>
         ext_of w fi \<in> set media_exts \<Longrightarrow> ANSIColor w node s = Return (wrap_bold Magenta s)"
  using assms by (simp_all add: ANSIColor_def ext_of_def Let_def)

lemma ANSIColor_default:
  assumes "FileInfo node = Some fi" "\<not> ext_rule w fi"
  shows "ANSIColor w node s =
     (if has_mode fi ModeSymlink \<and> filepath_EvalSymlinks w (path node) = None
      then Return (Escape @ ''[40;1;31m'' @ s @ Escape @ ''[0m'')
      else if has_mode fi ModeSocket then Return (Escape @ ''[40;1;35m'' @ s @ Escape @ ''[0m'')
      else if has_mode fi ModeNamedPipe then Return (Escape @ ''[40;33m'' @ s @ Escape @ ''[0m'')
      else if has_mode fi ModeDevice then Return (Escape @ ''[40;33;01m'' @ s @ Escape @ ''[0m'')
      else if has_mode fi ModeCharDevice then Return (Escape @ ''[40;33;01m'' @ s @ Escape @ ''[0m'')
      else Return (wrap_bold (if has_mode fi ModeSymlink then Cyan
                              else if IsDir fi then Blue else 0) s))"
  using assms
  by (simp add: ANSIColor_def ext_of_def ext_rule_def has_mode_def Let_def show_int_consts)

lemma ascii_lower_not_sep:
  "ascii_lower c = CHR ''/'' \<longleftrightarrow> c = CHR ''/''"
  "ascii_lower c = CHR ''.'' \<longleftrightarrow> c = CHR ''.''"
proof -
  have up: "of_char (ascii_lower c) = of_char c + (32::nat)" if "is_upper c"
    using that by (simp add: ascii_lower_def is_upper_def)
  show "ascii_lower c = CHR ''/'' \<longleftrightarrow> c = CHR ''/''"
  proof (cases "is_upper c")
    case True
    from up[OF True] True have "of_char (ascii_lower c) \<noteq> (47::nat)" "of_char c \<noteq> (47::nat)"
      by (auto simp: is_upper_def)
    then have "ascii_lower c \<noteq> CHR ''/''" "c \<noteq> CHR ''/''" by auto
    then show ?thesis by simp
  next
    case False
    then show ?thesis by (simp add: ascii_lower_def)
  qed
  show "ascii_lower c = CHR ''.'' \<longleftrightarrow> c = CHR ''.''"
  proof (cases "is_upper c")
    case True
    from up[OF True] True have "of_char (ascii_lower c) \<noteq> (46::nat)" "of_char c \<noteq> (46::nat)"
      by (auto simp: is_upper_def)
    then have "ascii_lower c \<noteq> CHR ''.''" "c \<noteq> CHR ''.''" by auto
    then show ?thesis by simp
  next
    case False
    then show ?thesis by (simp add: ascii_lower_def)
  qed
qed

lemma ext_scan_lower:
  "ext_scan (map ascii_lower cs) (map ascii_lower suf) = map ascii_lower (ext_scan cs suf)"
proof (induction cs arbitrary: suf)
  case Nil
  show ?case by simp
next
  case (Cons c cs)
  from Cons.IH[of "c # suf"] show ?case by (simp add: ascii_lower_not_sep)
qed

lemma Ext_lower: "Ext (map ascii_lower n) = map ascii_lower (Ext n)"
  using ext_scan_lower[of "rev n" "[]"] by (simp add: Ext_def rev_map)

lemma ext_scan_subset: "set (ext_scan cs suf) \<subseteq> set cs \<union> set suf"
  by (induction cs arbitrary: suf) (auto split: if_splits, fastforce+)

lemma is_ascii_Ext: "is_ascii n \<Longrightarrow> is_ascii (Ext n)"
  using ext_scan_subset[of "rev n" "[]"] by (auto simp: is_ascii_def Ext_def list_all_iff)

lemma ext_of_ascii: "is_ascii (Name fi) \<Longrightarrow> ext_of w fi = Ext (map ascii_lower (Name fi))"
  by (simp add: ext_of_def ToLower_def is_ascii_Ext Ext_lower)

lemma ANSIColor_same:
  assumes "FileInfo node = Some fi" "FileInfo node' = Some fi'" "path node' = path node"
    "ext_of w fi' = ext_of w fi" "IsDir fi' = IsDir fi" "Mode fi' = Mode fi"
  shows "ANSIColor w node' s = ANSIColor w node s"
  using assms by (simp add: ANSIColor_def ext_of_def Let_def)

lemma ext_lists_disjoint:
  "x \<in> set archive_exts \<Longrightarrow> x \<notin> set executable_exts"
  "x \<in> set media_exts \<Longrightarrow> x \<notin> set executable_exts"
  "x \<in> set media_exts \<Longrightarrow> x \<notin> set archive_exts"
  by (auto simp: executable_exts_def archive_exts_def media_exts_def)

text \<open>
  Claim C9. \<open>ANSIColor\<close> looks the extension up after lowering it, so two names that differ
  only in the case of ASCII letters get the same result. When no extension rule matches, a
  symbolic link whose target cannot be resolved gets the error-link styling at once, which
  is not the final wrapping whatever the colour; otherwise a socket, a named pipe, a block
  device and a character device return at once with their own styling (tested in this
  order). Every other case (an extension of the three lists, a valid symbolic link, a
  directory) ends in the one final wrapping: bold and the chosen colour before the text, a
  reset after it.
\<close>

theorem ANSIColor_rules:
  assumes fi: "FileInfo node = Some fi"
  shows
   "(is_ascii (Name fi) \<and> is_ascii n' \<and> map ascii_lower n' = map ascii_lower (Name fi) \<longrightarrow>
       ANSIColor w (Node (Some (fi\<lparr>Name := n'\<rparr>)) (path node) d e ns) s = ANSIColor w node s) \<and>
    (\<not> ext_rule w fi \<and> has_mode fi ModeSymlink \<and> filepath_EvalSymlinks w (path node) = None \<longrightarrow>
       ANSIColor w node s = Return (Escape @ ''[40;1;31m'' @ s @ Escape @ ''[0m'') \<and>
       (\<forall>c. ANSIColor w node s \<noteq> Return (wrap_bold c s))) \<and>
    (\<not> ext_rule w fi \<and>
     \<not> (has_mode fi ModeSymlink \<and> filepath_EvalSymlinks w (path node) = None) \<longrightarrow>
       (has_mode fi ModeSocket \<longrightarrow>
          ANSIColor w node s = Return (Escape @ ''[40;1;35m'' @ s @ Escape @ ''[0m'')) \<and>
       (\<not> has_mode fi ModeSocket \<and> has_mode fi ModeNamedPipe \<longrightarrow>
          ANSIColor w node s = Return (Escape @ ''[40;33m'' @ s @ Escape @ ''[0m'')) \<and>
       (\<not> has_mode fi ModeSocket \<and> \<not> has_mode fi ModeNamedPipe \<and>
        (has_mode fi ModeDevice \<or> has_mode fi ModeCharDevice) \<longrightarrow>
          ANSIColor w node s = Return (Escape @ ''[40;33;01m'' @ s @ Escape @ ''[0m'')) \<and>
       (\<not> has_mode fi ModeSocket \<and> \<not> has_mode fi ModeNamedPipe \<and>
        \<not> has_mode fi ModeDevice \<and> \<not> has_mode fi ModeCharDevice \<longrightarrow>
          ANSIColor w node s =
            Return (wrap_bold (if has_mode fi ModeSymlink then Cyan
                               else if IsDir fi then Blue else 0) s))) \<and>
    (ext_of w fi \<in> set executable_exts \<longrightarrow> ANSIColor w node s = Return (wrap_bold Green s)) \<and>
    (ext_of w fi \<in> set archive_exts \<longrightarrow> ANSIColor w node s = Return (wrap_bold Red s)) \<and>
    (ext_of w fi \<in> set media_exts \<longrightarrow> ANSIColor w node s = Return (wrap_bold Magenta s)) \<and>
    wrap_bold c s = Escape @ ''[1;'' @ show_int c @ ''m'' @ s @ Escape @ ''[0m''"
proof -
  have ci: "ANSIColor w (Node (Some (fi\<lparr>Name := n'\<rparr>)) (path node) d e ns) s = ANSIColor w node s"
    if "is_ascii (Name fi)" "is_ascii n'" "map ascii_lower n' = map ascii_lower (Name fi)"
  proof -
    have "ext_of w (fi\<lparr>Name := n'\<rparr>) = ext_of w fi"
      using that ext_of_ascii[of fi w] ext_of_ascii[of "fi\<lparr>Name := n'\<rparr>" w] by simp
    then show ?thesis
      by (intro ANSIColor_same[where fi'="fi\<lparr>Name := n'\<rparr>" and fi=fi, OF fi]) simp_all
  qed
  have br: "ANSIColor w node s = Return (Escape @ ''[40;1;31m'' @ s @ Escape @ ''[0m'') \<and>
       (\<forall>c. ANSIColor w node s \<noteq> Return (wrap_bold c s))"
    if "\<not> ext_rule w fi" "has_mode fi ModeSymlink" "filepath_EvalSymlinks w (path node) = None"
  proof -
    have 1: "ANSIColor w node s = Return (Escape @ ''[40;1;31m'' @ s @ Escape @ ''[0m'')"
      using that by (simp add: ANSIColor_default[OF fi])
    have "take 3 (Escape @ ''[40;1;31m'' @ s @ Escape @ ''[0m'') \<noteq> take 3 (wrap_bold c s)" for c
      unfolding wrap_bold_head by (simp add: Escape_def)
    then have "Escape @ ''[40;1;31m'' @ s @ Escape @ ''[0m'' \<noteq> wrap_bold c s" for c by metis
    with 1 show ?thesis by simp
  qed
  note d = ANSIColor_default[OF fi, of w s]
  note x = ANSIColor_ext[OF fi, of w s]
  have sp: "(has_mode fi ModeSocket \<longrightarrow>
          ANSIColor w node s = Return (Escape @ ''[40;1;35m'' @ s @ Escape @ ''[0m'')) \<and>
       (\<not> has_mode fi ModeSocket \<and> has_mode fi ModeNamedPipe \<longrightarrow>
          ANSIColor w node s = Return (Escape @ ''[40;33m'' @ s @ Escape @ ''[0m'')) \<and>
       (\<not> has_mode fi ModeSocket \<and> \<not> has_mode fi ModeNamedPipe \<and>
        (has_mode fi ModeDevice \<or> has_mode fi ModeCharDevice) \<longrightarrow>
          ANSIColor w node s = Return (Escape @ ''[40;33;01m'' @ s @ Escape @ ''[0m'')) \<and>
       (\<not> has_mode fi ModeSocket \<and> \<not> has_mode fi ModeNamedPipe \<and>
        \<not> has_mode fi ModeDevice \<and> \<not> has_mode fi ModeCharDevice \<longrightarrow>
          ANSIColor w node s =
            Return (wrap_bold (if has_mode fi ModeSymlink then Cyan
                               else if IsDir fi then Blue else 0) s))"
    if "\<not> ext_rule w fi"
      "\<not> (has_mode fi ModeSymlink \<and> filepath_EvalSymlinks w (path node) = None)"
    unfolding d[OF that(1)] using that(2) by auto
  have e1: "ANSIColor w node s = Return (wrap_bold Green s)" if "ext_of w fi \<in> set executable_exts"
    using x(1) that by simp
  have e2: "ANSIColor w node s = Return (wrap_bold Red s)" if "ext_of w fi \<in> set archive_exts"
    using x(2) that ext_lists_disjoint(1)[of "ext_of w fi"] by simp
  have e3: "ANSIColor w node s = Return (wrap_bold Magenta s)" if "ext_of w fi \<in> set media_exts"
    using x(3) that ext_lists_disjoint(2,3)[of "ext_of w fi"] by simp
  have wb: "wrap_bold c s = Escape @ ''[1;'' @ show_int c @ ''m'' @ s @ Escape @ ''[0m''"
    by (simp add: wrap_bold_def show_int_consts)
  from ci br sp e1 e2 e3 wb show ?thesis by blast
qed

theorem ANSIColor_rules_witness:
  "ANSIColor demo_world (Node (Some (a_file ''PKG.ZIP'' 1)) ''/p'' 1 None []) ''x''
     = Return (Escape @ ''[1;31mx'' @ Escape @ ''[0m'') \<and>
   ANSIColor demo_world (Node (Some (a_link ''dead'')) ''/k/dead'' 1 None []) ''x''
     = Return (Escape @ ''[40;1;31mx'' @ Escape @ ''[0m'') \<and>
   ANSIColor demo_world (Node (Some ((a_file ''s'' 0)\<lparr>Mode := ModeSocket\<rparr>)) ''/s'' 1 None []) ''x''
     = Return (Escape @ ''[40;1;35mx'' @ Escape @ ''[0m'') \<and>
   ANSIColor demo_world (Node (Some ((a_file ''p'' 0)\<lparr>Mode := ModeNamedPipe\<rparr>)) ''/p'' 1 None []) ''x''
     = Return (Escape @ ''[40;33mx'' @ Escape @ ''[0m'') \<and>
   ANSIColor demo_world (Node (Some ((a_file ''c'' 0)\<lparr>Mode := ModeDevice OR ModeCharDevice\<rparr>)) ''/c'' 1 None []) ''x''
     = Return (Escape @ ''[40;33;01mx'' @ Escape @ ''[0m'') \<and>
   ANSIColor demo_world (Node (Some (a_dir ''d'')) ''/r/d'' 1 None []) ''x''
     = Return (Escape @ ''[1;34mx'' @ Escape @ ''[0m'') \<and>
   ANSIColor demo_world (Node (Some (a_link ''self'')) ''/k/self'' 1 None []) ''x''
     = Return (Escape @ ''[1;36mx'' @ Escape @ ''[0m'')"
proof -
  let ?z = "a_file ''pkg.zip'' 1"
  let ?nz = "Node (Some ?z) ''/p'' 1 None []"
  note Z = ANSIColor_rules[where node="?nz" and fi="?z" and n'="''PKG.ZIP''" and w=demo_world
      and d=1 and e=None and ns="[]" and s="''x''" and c=Red]
  have z0: "FileInfo ?nz = Some ?z" by simp
  have z1: "is_ascii (Name ?z) \<and> is_ascii ''PKG.ZIP'' \<and>
      map ascii_lower ''PKG.ZIP'' = map ascii_lower (Name ?z)" by code_simp
  have z2: "ext_of demo_world ?z \<in> set archive_exts" by code_simp
  have z3: "?z\<lparr>Name := ''PKG.ZIP''\<rparr> = a_file ''PKG.ZIP'' 1" by (simp add: a_file_def)
  have wb: "wrap_bold Red ''x'' = Escape @ ''[1;31mx'' @ Escape @ ''[0m''"
    "wrap_bold Blue ''x'' = Escape @ ''[1;34mx'' @ Escape @ ''[0m''"
    "wrap_bold Cyan ''x'' = Escape @ ''[1;36mx'' @ Escape @ ''[0m''"
    by (simp_all add: wrap_bold_text)
  have c1: "ANSIColor demo_world (Node (Some (a_file ''PKG.ZIP'' 1)) ''/p'' 1 None []) ''x''
     = Return (Escape @ ''[1;31mx'' @ Escape @ ''[0m'')"
    using Z[OF z0, THEN conjunct1, THEN mp, OF z1]
      Z[OF z0, THEN conjunct2, THEN conjunct2, THEN conjunct2, THEN conjunct2, THEN conjunct1, THEN mp, OF z2]
    by (simp add: z3 wb)
  let ?l = "a_link ''dead''"
  let ?nl = "Node (Some ?l) ''/k/dead'' 1 None []"
  have l0: "FileInfo ?nl = Some ?l" by simp
  have l1: "\<not> ext_rule demo_world ?l \<and> has_mode ?l ModeSymlink \<and>
      filepath_EvalSymlinks demo_world (path ?nl) = None" by code_simp
  have c2: "ANSIColor demo_world ?nl ''x'' = Return (Escape @ ''[40;1;31mx'' @ Escape @ ''[0m'')"
    using ANSIColor_rules[where node="?nl" and fi="?l" and w=demo_world and s="''x''", OF l0,
        THEN conjunct2, THEN conjunct1, THEN mp, OF l1]
    by simp
  let ?s = "(a_file ''s'' 0)\<lparr>Mode := ModeSocket\<rparr>"
  let ?ns = "Node (Some ?s) ''/s'' 1 None []"
  have s0: "FileInfo ?ns = Some ?s" by simp
  have s1: "\<not> ext_rule demo_world ?s \<and>
     \<not> (has_mode ?s ModeSymlink \<and> filepath_EvalSymlinks demo_world (path ?ns) = None)" by code_simp
  have s2: "has_mode ?s ModeSocket" by code_simp
  have c3: "ANSIColor demo_world ?ns ''x'' = Return (Escape @ ''[40;1;35mx'' @ Escape @ ''[0m'')"
    using ANSIColor_rules[where node="?ns" and fi="?s" and w=demo_world and s="''x''", OF s0,
        THEN conjunct2, THEN conjunct2, THEN conjunct1, THEN mp, OF s1, THEN conjunct1, THEN mp, OF s2]
    by simp
  let ?p = "(a_file ''p'' 0)\<lparr>Mode := ModeNamedPipe\<rparr>"
  let ?np = "Node (Some ?p) ''/p'' 1 None []"
  have p0: "FileInfo ?np = Some ?p" by simp
  have p1: "\<not> ext_rule demo_world ?p \<and>
     \<not> (has_mode ?p ModeSymlink \<and> filepath_EvalSymlinks demo_world (path ?np) = None)" by code_simp
  have p2: "\<not> has_mode ?p ModeSocket \<and> has_mode ?p ModeNamedPipe" by code_simp
  have c4: "ANSIColor demo_world ?np ''x'' = Return (Escape @ ''[40;33mx'' @ Escape @ ''[0m'')"
    using ANSIColor_rules[where node="?np" and fi="?p" and w=demo_world and s="''x''", OF p0,
        THEN conjunct2, THEN conjunct2, THEN conjunct1, THEN mp, OF p1,
        THEN conjunct2, THEN conjunct1, THEN mp, OF p2]
    by simp
  let ?c = "(a_file ''c'' 0)\<lparr>Mode := ModeDevice OR ModeCharDevice\<rparr>"
  let ?nc = "Node (Some ?c) ''/c'' 1 None []"
  have d0: "FileInfo ?nc = Some ?c" by simp
  have d1: "\<not> ext_rule demo_world ?c \<and>
     \<not> (has_mode ?c ModeSymlink \<and> filepath_EvalSymlinks demo_world (path ?nc) = None)" by code_simp
  have d2: "\<not> has_mode ?c ModeSocket \<and> \<not> has_mode ?c ModeNamedPipe \<and>
        (has_mode ?c ModeDevice \<or> has_mode ?c ModeCharDevice)" by code_simp
  have c5: "ANSIColor demo_world ?nc ''x'' = Return (Escape @ ''[40;33;01mx'' @ Escape @ ''[0m'')"
    using ANSIColor_rules[where node="?nc" and fi="?c" and w=demo_world and s="''x''", OF d0,
        THEN conjunct2, THEN conjunct2, THEN conjunct1, THEN mp, OF d1,
        THEN conjunct2, THEN conjunct2, THEN conjunct1, THEN mp, OF d2]
    by simp
  let ?d = "a_dir ''d''"
  let ?nd = "Node (Some ?d) ''/r/d'' 1 None []"
  have e0: "FileInfo ?nd = Some ?d" by simp
  have e1: "\<not> ext_rule demo_world ?d \<and>
     \<not> (has_mode ?d ModeSymlink \<and> filepath_EvalSymlinks demo_world (path ?nd) = None)" by code_simp
  have e2: "\<not> has_mode ?d ModeSocket \<and> \<not> has_mode ?d ModeNamedPipe \<and>
        \<not> has_mode ?d ModeDevice \<and> \<not> has_mode ?d ModeCharDevice" by code_simp
  have e3: "(if has_mode ?d ModeSymlink then Cyan else if IsDir ?d then Blue else 0) = Blue"
    by code_simp
  have c6: "ANSIColor demo_world ?nd ''x'' = Return (Escape @ ''[1;34mx'' @ Escape @ ''[0m'')"
    using ANSIColor_rules[where node="?nd" and fi="?d" and w=demo_world and s="''x''", OF e0,
        THEN conjunct2, THEN conjunct2, THEN conjunct1, THEN mp, OF e1,
        THEN conjunct2, THEN conjunct2, THEN conjunct2, THEN mp, OF e2]
    unfolding e3 by (simp add: wb)
  let ?k = "a_link ''self''"
  let ?nk = "Node (Some ?k) ''/k/self'' 1 None []"
  have k0: "FileInfo ?nk = Some ?k" by simp
  have k1: "\<not> ext_rule demo_world ?k \<and>
     \<not> (has_mode ?k ModeSymlink \<and> filepath_EvalSymlinks demo_world (path ?nk) = None)" by code_simp
  have k2: "\<not> has_mode ?k ModeSocket \<and> \<not> has_mode ?k ModeNamedPipe \<and>
        \<not> has_mode ?k ModeDevice \<and> \<not> has_mode ?k ModeCharDevice" by code_simp
  have k3: "(if has_mode ?k ModeSymlink then Cyan else if IsDir ?k then Blue else 0) = Cyan"
    by code_simp
  have c7: "ANSIColor demo_world ?nk ''x'' = Return (Escape @ ''[1;36mx'' @ Escape @ ''[0m'')"
    using ANSIColor_rules[where node="?nk" and fi="?k" and w=demo_world and s="''x''", OF k0,
        THEN conjunct2, THEN conjunct2, THEN conjunct1, THEN mp, OF k1,
        THEN conjunct2, THEN conjunct2, THEN conjunct2, THEN mp, OF k2]
    unfolding k3 by (simp add: wb)
  from c1 c2 c3 c4 c5 c6 c7 show ?thesis by (intro conjI)
qed

lemma same_but_links_list_refl:
  "(\<And>x. x \<in> set ns \<Longrightarrow> same_but_links x x) \<Longrightarrow> same_but_links_list ns ns"
  by (induction ns) auto

lemma same_but_links_refl: "same_but_links n n"
proof (induction n)
  case (Node fi p d e ns)
  then have "same_but_links_list ns ns" by (intro same_but_links_list_refl) auto
  then show ?case by simp
qed

lemma visited_emit [simp]: "visited (emit dst s st) = visited st"
  by (simp add: emit_def)

lemma symlink_step_unchanged:
  assumes "symlink_step k w opts node fi name st = Some (Return (name', ns, st2))"
    and "\<not> (Mode fi AND ModeSymlink = ModeSymlink) \<or> \<not> FollowLink opts"
  shows "ns = nodes node \<and> st2 = st"
  using assms
  by (auto simp: symlink_step_def Let_def split: if_splits outcome.splits)

lemma print_nodes_step:
  assumes "print_nodes pr opts indent add (n # rest) st = Some (Return (ns', st'))"
  shows "\<exists>add' st1 n' s2 rest'.
           pr (indent @ add') n st1 = Some (Return (n', s2)) \<and> visited st1 = visited st \<and>
           print_nodes pr opts indent add' rest s2 = Some (Return (rest', st')) \<and>
           ns' = n' # rest'"
proof -
  define a where "a = (if NoIndent opts then ('''', st)
             else if rest = [] then (''    '', emit OutFile (indent @ glyph_last) st)
             else (add, emit OutFile (indent @ glyph_mid) st))"
  obtain add' st1 where a': "a = (add', st1)" by (cases a) auto
  have v: "visited st1 = visited st" using a' by (auto simp: a_def split: if_splits)
  have eq: "print_nodes pr opts indent add (n # rest) st =
      (case pr (indent @ add') n st1 of
           None \<Rightarrow> None
         | Some Panic \<Rightarrow> Some Panic
         | Some (Return (nnode', st)) \<Rightarrow>
             (case print_nodes pr opts indent add' rest st of
                None \<Rightarrow> None
              | Some Panic \<Rightarrow> Some Panic
              | Some (Return (rest', st)) \<Rightarrow> Some (Return (nnode' # rest', st))))"
    using a' unfolding a_def by (simp add: print_nodes.simps(2))
  from assms[unfolded eq] obtain n' s2 where 1: "pr (indent @ add') n st1 = Some (Return (n', s2))"
    by (cases "pr (indent @ add') n st1") (auto split: outcome.splits)
  from assms[unfolded eq] 1 obtain rest' where
    2: "print_nodes pr opts indent add' rest s2 = Some (Return (rest', st'))" "ns' = n' # rest'"
    by (cases "print_nodes pr opts indent add' rest s2") (auto split: outcome.splits)
  from 1 2 v show ?thesis by blast
qed

lemma print_nodes_keeps:
  assumes pr: "\<And>i n s n' s'. pr i n s = Some (Return (n', s')) \<Longrightarrow>
      same_but_links n n' \<and> (\<not> FollowLink opts \<longrightarrow> n' = n \<and> visited s' = visited s)"
    and r: "print_nodes pr opts indent add ns st = Some (Return (ns', st'))"
  shows "same_but_links_list ns ns' \<and> (\<not> FollowLink opts \<longrightarrow> ns' = ns \<and> visited st' = visited st)"
  using r
proof (induction ns arbitrary: add st ns' st')
  case Nil
  then show ?case by simp
next
  case (Cons n rest)
  from print_nodes_step[OF Cons.prems] obtain add' st1 n' s2 rest' where
    s: "pr (indent @ add') n st1 = Some (Return (n', s2))" "visited st1 = visited st"
       "print_nodes pr opts indent add' rest s2 = Some (Return (rest', st'))" "ns' = n' # rest'"
    by (elim exE conjE)
  note a = pr[OF s(1)]
  note b = Cons.IH[OF s(3)]
  from a b s(2,4) show ?case by auto
qed

lemma print_ok_cases:
  assumes "err node = None" "FileInfo node = Some fi"
    and "print (Suc k) w opts indent node st = Some (Return (node', st'))"
  shows "\<exists>st1 name name' ns st2 ns'.
           visited st1 = visited st \<and>
           symlink_step k w opts node fi name st1 = Some (Return (name', ns, st2)) \<and>
           print_nodes (print k w opts) opts indent glyph_bar ns
             (emit OutFile (name' @ [CHR 0x0A]) st2) = Some (Return (ns', st')) \<and>
           node' = Node (FileInfo node) (path node) (depth node) (err node) ns'"
proof -
  let ?props = "if \<not> IsDir fi then file_props w opts fi else dir_props opts node"
  from assms obtain props where p: "?props = Return props"
    by (cases ?props) (auto simp: print.simps(2))
  define st1 where "st1 = (if length props > 0
                               then emit OutFile (''['' @ Join props '' '' @ '']  '') st
                               else st)"
  have v: "visited st1 = visited st" by (simp add: st1_def)
  from assms p obtain name where n: "display_name w opts node fi = Return name"
    by (cases "display_name w opts node fi") (auto simp: print.simps(2) Let_def)
  have eq: "print (Suc k) w opts indent node st =
       (case symlink_step k w opts node fi name st1 of
                               None \<Rightarrow> None
                             | Some Panic \<Rightarrow> Some Panic
                             | Some (Return (name, ns, st)) \<Rightarrow>
                                 (case print_nodes (\<lambda>i n s. print k w opts i n s) opts indent
                                         glyph_bar ns (emit OutFile (name @ [CHR 0x0A]) st) of
                                    None \<Rightarrow> None
                                  | Some Panic \<Rightarrow> Some Panic
                                  | Some (Return (ns', st)) \<Rightarrow>
                                      Some (Return (Node (FileInfo node) (path node) (depth node)
                                                      (err node) ns', st))))"
    using assms(1,2) p n by (simp add: print.simps(2) st1_def Let_def)
  from assms(3)[unfolded eq] obtain name' ns st2 where
    1: "symlink_step k w opts node fi name st1 = Some (Return (name', ns, st2))"
    by (cases "symlink_step k w opts node fi name st1") (auto split: outcome.splits)
  from assms(3)[unfolded eq] 1 obtain ns' where
    2: "print_nodes (print k w opts) opts indent glyph_bar ns
             (emit OutFile (name' @ [CHR 0x0A]) st2) = Some (Return (ns', st'))"
       "node' = Node (FileInfo node) (path node) (depth node) (err node) ns'"
    by (cases "print_nodes (print k w opts) opts indent glyph_bar ns
             (emit OutFile (name' @ [CHR 0x0A]) st2)") (auto split: outcome.splits)
  from v 1 2 show ?thesis by blast
qed

lemma print_keeps:
  "print k w opts indent node st = Some (Return (node', st')) \<Longrightarrow>
   same_but_links node node' \<and> (\<not> FollowLink opts \<longrightarrow> node' = node \<and> visited st' = visited st)"
proof (induction k arbitrary: indent node st node' st')
  case 0
  then show ?case by simp
next
  case (Suc k)
  show ?case
  proof (cases "err node")
    case (Some e)
    from Suc.prems[unfolded print_error[OF Some]] show ?thesis
      by (auto simp: same_but_links_refl)
  next
    case None
    show ?thesis
    proof (cases "FileInfo node")
      case nofi: None
      with None Suc.prems show ?thesis by (simp add: print.simps(2))
    next
      case (Some fi)
      from print_ok_cases[OF None Some Suc.prems] obtain st1 name name' ns st2 ns' where
        c: "visited st1 = visited st"
           "symlink_step k w opts node fi name st1 = Some (Return (name', ns, st2))"
           "print_nodes (print k w opts) opts indent glyph_bar ns
             (emit OutFile (name' @ [CHR 0x0A]) st2) = Some (Return (ns', st'))"
           "node' = Node (FileInfo node) (path node) (depth node) (err node) ns'"
        by (elim exE conjE)
      have pn: "same_but_links_list ns ns' \<and>
          (\<not> FollowLink opts \<longrightarrow> ns' = ns \<and> visited st' = visited (emit OutFile (name' @ [CHR 0x0A]) st2))"
        by (rule print_nodes_keeps[where pr="print k w opts", OF Suc.IH c(3)])
      obtain fi0 p d e ns0 where nd: "node = Node fi0 p d e ns0" by (cases node) auto
      have link: "is_link fi0 \<or> same_but_links_list ns0 ns'"
      proof (cases "is_link fi0")
        case True
        then show ?thesis by simp
      next
        case False
        with nd Some have "\<not> (Mode fi AND ModeSymlink = ModeSymlink)" by (simp add: is_link_def)
        from symlink_step_unchanged[OF c(2)] this nd have "ns = ns0" by simp
        with pn show ?thesis by simp
      qed
      have nf: "node' = node \<and> visited st' = visited st" if "\<not> FollowLink opts"
      proof -
        from symlink_step_unchanged[OF c(2)] that have "ns = nodes node" "st2 = st1" by auto
        with pn that c(1,4) nd show ?thesis by simp
      qed
      from link nf c(4) nd show ?thesis by simp
    qed
  qed
qed

declare tree_after.simps(2) [simp del]

lemma symlink_step_tree:
  assumes "symlink_step k w opts node fi name st = Some (Return (name', ns, st2))"
    and "FileInfo node = Some fi"
  shows "(if follows w opts node (visited st) then fresh_traversal k w opts node (visited st)
          else Some (nodes node, visited st)) = Some (ns, visited st2)"
  using assms
  by (auto simp: symlink_step_def follows_def fresh_traversal_def is_link_def Let_def
           split: if_splits outcome.splits option.splits sum.splits prod.splits)

lemma print_nodes_trees:
  assumes pr: "\<And>i n s n' s'. pr i n s = Some (Return (n', s')) \<Longrightarrow>
                 f n (visited s) = Some (n', visited s')"
    and r: "print_nodes pr opts indent add ns st = Some (Return (ns', st'))"
  shows "trees_after f ns (visited st) = Some (ns', visited st')"
  using r
proof (induction ns arbitrary: add st ns' st')
  case Nil
  then show ?case by simp
next
  case (Cons n rest)
  from print_nodes_step[OF Cons.prems] obtain add' st1 n' s2 rest' where
    s: "pr (indent @ add') n st1 = Some (Return (n', s2))" "visited st1 = visited st"
       "print_nodes pr opts indent add' rest s2 = Some (Return (rest', st'))" "ns' = n' # rest'"
    by (elim exE conjE)
  note a = pr[OF s(1)]
  note b = Cons.IH[OF s(3)]
  from a b s(2,4) show ?case by simp
qed

lemma print_tree_after:
  "print k w opts indent node st = Some (Return (node', st')) \<Longrightarrow>
   tree_after k w opts node (visited st) = Some (node', visited st')"
proof (induction k arbitrary: indent node st node' st')
  case 0
  then show ?case by simp
next
  case (Suc k)
  show ?case
  proof (cases "err node")
    case (Some e)
    from Suc.prems[unfolded print_error[OF Some]] Some show ?thesis
      by (auto simp: tree_after.simps(2))
  next
    case None
    show ?thesis
    proof (cases "FileInfo node")
      case nofi: None
      with None Suc.prems show ?thesis by (simp add: print.simps(2))
    next
      case (Some fi)
      from print_ok_cases[OF None Some Suc.prems] obtain st1 name name' ns st2 ns' where
        c: "visited st1 = visited st"
           "symlink_step k w opts node fi name st1 = Some (Return (name', ns, st2))"
           "print_nodes (print k w opts) opts indent glyph_bar ns
             (emit OutFile (name' @ [CHR 0x0A]) st2) = Some (Return (ns', st'))"
           "node' = Node (FileInfo node) (path node) (depth node) (err node) ns'"
        by (elim exE conjE)
      have pn: "trees_after (\<lambda>n v. tree_after k w opts n v) ns
                  (visited (emit OutFile (name' @ [CHR 0x0A]) st2)) = Some (ns', visited st')"
        by (rule print_nodes_trees[where pr="print k w opts"
              and f="\<lambda>n v. tree_after k w opts n v", OF Suc.IH c(3)])
      have src: "(if follows w opts node (visited st) then fresh_traversal k w opts node (visited st)
          else Some (nodes node, visited st)) = Some (ns, visited st2)"
        using symlink_step_tree[OF c(2) Some] unfolding c(1) .
      show ?thesis using None src pn c(4)
        by (simp add: tree_after.simps(2))
    qed
  qed
qed

lemma tree_after_fields:
  "tree_after k w opts n vp = Some (n', vp') \<Longrightarrow> same_fields n n'"
  by (cases k)
     (auto simp: tree_after.simps(2) same_fields_def split: if_splits option.splits prod.splits)

lemma trees_after_fields:
  assumes "\<And>n v n' v'. f n v = Some (n', v') \<Longrightarrow> same_fields n n'"
    and "trees_after f ns vp = Some (ns', vp')"
  shows "list_all2 same_fields ns ns'"
  using assms(2)
proof (induction ns arbitrary: vp ns' vp')
  case Nil
  then show ?case by simp
next
  case (Cons n ns)
  from Cons.prems obtain n' v1 where 1: "f n vp = Some (n', v1)"
    by (cases "f n vp") auto
  from Cons.prems 1 obtain rest' where 2: "trees_after f ns v1 = Some (rest', vp')" "ns' = n' # rest'"
    by (cases "trees_after f ns v1") auto
  from assms(1)[OF 1] Cons.IH[OF 2(1)] 2(2) show ?case by simp
qed

lemma tree_after_children:
  assumes "tree_after k w opts node vp = Some (node', vp')" and "err node = None"
  shows "\<exists>ns vp1.
           (if follows w opts node vp then fresh_traversal (k - 1) w opts node vp
            else Some (nodes node, vp)) = Some (ns, vp1) \<and>
           list_all2 same_fields ns (nodes node')"
proof -
  from assms(1) obtain j where k: "k = Suc j" by (cases k) auto
  let ?src = "if follows w opts node vp then fresh_traversal j w opts node vp
              else Some (nodes node, vp)"
  from assms[unfolded k] obtain ns vp1 where s: "?src = Some (ns, vp1)"
    by (cases ?src) (auto simp: tree_after.simps(2))
  from assms[unfolded k] s obtain ns' where
    t: "trees_after (\<lambda>n v. tree_after j w opts n v) ns vp1 = Some (ns', vp')"
       "nodes node' = ns'"
    by (cases "trees_after (\<lambda>n v. tree_after j w opts n v) ns vp1")
       (auto simp: tree_after.simps(2))
  have "list_all2 same_fields ns ns'"
    by (rule trees_after_fields[where f="\<lambda>n v. tree_after j w opts n v", OF _ t(1)])
       (rule tree_after_fields)
  with s t(2) k show ?thesis by (auto split: if_splits)
qed

text \<open>
  Claim C8, as the code has it. Rendering leaves the path, depth, \<^verbatim>\<open>FileInfo\<close> and error of
  every node as they are, and a node with an error entirely. The tree \<open>print\<close> leaves is the
  one \<open>tree_after\<close> describes: a symbolic link that is followed (follow-symlinks set, the
  resolved target a directory whose cleaned absolute path is not among the visited paths)
  gets the children of a fresh traversal of its target in place of its own; every other
  node, a link to a file or to a visited directory included, keeps its children; the
  children are then rendered in turn. With follow-symlinks disabled the whole tree and the
  visited paths stay unchanged.
\<close>

theorem print_keeps_nodes:
  "print k w opts indent node st = Some (Return (node', st')) \<Longrightarrow>
   tree_after k w opts node (visited st) = Some (node', visited st') \<and>
   same_fields node node' \<and>
   (err node \<noteq> None \<longrightarrow> node' = node \<and> visited st' = visited st) \<and>
   (err node = None \<and> \<not> follows w opts node (visited st) \<longrightarrow>
      list_all2 same_fields (nodes node) (nodes node')) \<and>
   (err node = None \<and> follows w opts node (visited st) \<longrightarrow>
      (\<exists>ns vp. fresh_traversal (k - 1) w opts node (visited st) = Some (ns, vp) \<and>
               list_all2 same_fields ns (nodes node'))) \<and>
   same_but_links node node' \<and>
   (\<not> FollowLink opts \<longrightarrow> node' = node \<and> visited st' = visited st)"
proof -
  assume p: "print k w opts indent node st = Some (Return (node', st'))"
  note t = print_tree_after[OF p]
  note f = tree_after_fields[OF t]
  have e: "node' = node \<and> visited st' = visited st" if "err node \<noteq> None"
  proof -
    from t obtain j where "k = Suc j" by (cases k) auto
    with t that show ?thesis by (simp add: tree_after.simps(2))
  qed
  have c: "\<exists>ns vp1.
           (if follows w opts node (visited st)
            then fresh_traversal (k - 1) w opts node (visited st)
            else Some (nodes node, visited st)) = Some (ns, vp1) \<and>
           list_all2 same_fields ns (nodes node')" if "err node = None"
    by (rule tree_after_children[OF t that])
  have c1: "list_all2 same_fields (nodes node) (nodes node')"
    if "err node = None" "\<not> follows w opts node (visited st)"
    using c[OF that(1)] that(2) by auto
  have c2: "\<exists>ns vp. fresh_traversal (k - 1) w opts node (visited st) = Some (ns, vp) \<and>
               list_all2 same_fields ns (nodes node')"
    if "err node = None" "follows w opts node (visited st)"
    using c[OF that(1)] that(2) by auto
  from t f e c1 c2 print_keeps[OF p] show ?thesis by blast
qed

theorem print_keeps_nodes_witness:
  "print 5 demo_world follow_opts '''' k_tree k_state =
     Some (Return (k_tree_followed, \<lparr>visited = {''/k'', ''/k/self'', ''/k/out'', ''/t'', ''/t/c''},
        written = [(OutFile, ''/k'' @ [CHR 0x0A]), (OutFile, glyph_mid),
          (OutFile, ''self -> /k [recursive, not followed]'' @ [CHR 0x0A]), (OutFile, glyph_last),
          (OutFile, ''out -> /t'' @ [CHR 0x0A]), (OutFile, ''    '' @ glyph_last),
          (OutFile, ''c'' @ [CHR 0x0A])]\<rparr>)) \<and>
   tree_after 5 demo_world follow_opts k_tree {''/k'', ''/k/self'', ''/k/out''} =
     Some (k_tree_followed, {''/k'', ''/k/self'', ''/k/out'', ''/t'', ''/t/c''}) \<and>
   \<not> follows demo_world follow_opts k_tree {''/k'', ''/k/self'', ''/k/out''} \<and>
   list_all2 same_fields (nodes k_tree) (nodes k_tree_followed) \<and>
   follows demo_world follow_opts out_node {''/k'', ''/k/self'', ''/k/out''} \<and>
   (\<exists>ns vp. fresh_traversal 2 demo_world follow_opts out_node {''/k'', ''/k/self'', ''/k/out''} =
              Some (ns, vp) \<and>
            list_all2 same_fields ns [Node (Some (a_file ''c'' 5)) ''/t/c'' 1 None []]) \<and>
   \<not> follows demo_world follow_opts self_node {''/k'', ''/k/self'', ''/k/out''} \<and>
   print 1 demo_world follow_opts ''''
       (Node None ''/r/x'' 1 (Some ''lstat /r/x: permission denied'') []) start =
     Some (Return (Node None ''/r/x'' 1 (Some ''lstat /r/x: permission denied'') [],
       \<lparr>visited = {}, written = [(Stdout, ''/r/x [permission denied]'' @ [CHR 0x0A])]\<rparr>)) \<and>
   tree_after 1 demo_world follow_opts
       (Node None ''/r/x'' 1 (Some ''lstat /r/x: permission denied'') []) {} =
     Some (Node None ''/r/x'' 1 (Some ''lstat /r/x: permission denied'') [], {}) \<and>
   \<not> FollowLink demo_opts \<and>
   tree_after 2 demo_world demo_opts t_tree {''/t'', ''/t/c''} = Some (t_tree, {''/t'', ''/t/c''}) \<and>
   print 2 demo_world demo_opts '''' t_tree \<lparr>visited = {''/t'', ''/t/c''}, written = []\<rparr> =
     Some (Return (t_tree, \<lparr>visited = {''/t'', ''/t/c''},
        written = [(OutFile, ''/t'' @ [CHR 0x0A]), (OutFile, glyph_last), (OutFile, ''c'' @ [CHR 0x0A])]\<rparr>))"
proof -
  have vk: "visited k_state = {''/k'', ''/k/self'', ''/k/out''}" by code_simp
  have q: "print 5 demo_world follow_opts '''' k_tree k_state =
     Some (Return (k_tree_followed, \<lparr>visited = {''/k'', ''/k/self'', ''/k/out'', ''/t'', ''/t/c''},
        written = [(OutFile, ''/k'' @ [CHR 0x0A]), (OutFile, glyph_mid),
          (OutFile, ''self -> /k [recursive, not followed]'' @ [CHR 0x0A]), (OutFile, glyph_last),
          (OutFile, ''out -> /t'' @ [CHR 0x0A]), (OutFile, ''    '' @ glyph_last),
          (OutFile, ''c'' @ [CHR 0x0A])]\<rparr>))"
    by code_simp
  have o: "print 3 demo_world follow_opts '''' out_node k_state =
     Some (Return (Node (Some (a_link ''out'')) ''/k/out'' 1 None
                     [Node (Some (a_file ''c'' 5)) ''/t/c'' 1 None []],
        \<lparr>visited = {''/k'', ''/k/self'', ''/k/out'', ''/t'', ''/t/c''},
        written = [(OutFile, ''out -> /t'' @ [CHR 0x0A]), (OutFile, glyph_last),
          (OutFile, ''c'' @ [CHR 0x0A])]\<rparr>))"
    by code_simp
  have x: "print 1 demo_world follow_opts ''''
       (Node None ''/r/x'' 1 (Some ''lstat /r/x: permission denied'') []) start =
     Some (Return (Node None ''/r/x'' 1 (Some ''lstat /r/x: permission denied'') [],
       \<lparr>visited = {}, written = [(Stdout, ''/r/x [permission denied]'' @ [CHR 0x0A])]\<rparr>))"
    by code_simp
  have p: "print 2 demo_world demo_opts '''' t_tree \<lparr>visited = {''/t'', ''/t/c''}, written = []\<rparr> =
     Some (Return (t_tree, \<lparr>visited = {''/t'', ''/t/c''},
        written = [(OutFile, ''/t'' @ [CHR 0x0A]), (OutFile, glyph_last), (OutFile, ''c'' @ [CHR 0x0A])]\<rparr>))"
    by code_simp
  have e1: "err k_tree = None" "err out_node = None" by code_simp+
  have nf: "\<not> follows demo_world follow_opts k_tree {''/k'', ''/k/self'', ''/k/out''}"
    by code_simp
  have ns: "\<not> follows demo_world follow_opts self_node {''/k'', ''/k/self'', ''/k/out''}"
    by code_simp
  have fo: "follows demo_world follow_opts out_node {''/k'', ''/k/self'', ''/k/out''}"
    by code_simp
  have nfl: "\<not> FollowLink demo_opts" by code_simp
  note A = print_keeps_nodes[OF q, unfolded vk]
  note B = print_keeps_nodes[OF o, unfolded vk]
  have a1: "tree_after 5 demo_world follow_opts k_tree {''/k'', ''/k/self'', ''/k/out''} =
     Some (k_tree_followed, {''/k'', ''/k/self'', ''/k/out'', ''/t'', ''/t/c''})"
    using A by simp
  have a2: "list_all2 same_fields (nodes k_tree) (nodes k_tree_followed)"
    using A e1(1) nf by blast
  have b1: "\<exists>ns vp. fresh_traversal 2 demo_world follow_opts out_node {''/k'', ''/k/self'', ''/k/out''} =
              Some (ns, vp) \<and>
            list_all2 same_fields ns [Node (Some (a_file ''c'' 5)) ''/t/c'' 1 None []]"
    using B e1(2) fo by simp
  have vs: "visited start = {}" by code_simp
  have x1: "tree_after 1 demo_world follow_opts
       (Node None ''/r/x'' 1 (Some ''lstat /r/x: permission denied'') []) {} =
     Some (Node None ''/r/x'' 1 (Some ''lstat /r/x: permission denied'') [], {})"
    using print_keeps_nodes[OF x, unfolded vs] by simp
  have p1: "tree_after 2 demo_world demo_opts t_tree {''/t'', ''/t/c''} = Some (t_tree, {''/t'', ''/t/c''})"
    using print_keeps_nodes[OF p] by simp
  from q a1 nf a2 fo b1 ns x x1 nfl p1 p show ?thesis by (intro conjI)
qed

text \<open>
  Claim C8 as stated says that rendering leaves every node unchanged. With follow-symlinks
  enabled, \<open>print\<close> assigns the children of the traversed target to the link's node: after
  rendering \<^verbatim>\<open>/k\<close>, the node of the link \<^verbatim>\<open>/k/out\<close> has the child \<^verbatim>\<open>/t/c\<close>.
\<close>

theorem print_keeps_nodes_counterexample:
  "Visit 2 demo_world follow_opts (New ''/k'') {} =
     Some (Return (k_tree, {''/k'', ''/k/self'', ''/k/out''}, 1, 2)) \<and>
   Print 5 demo_world follow_opts k_tree \<lparr>visited = {''/k'', ''/k/self'', ''/k/out''}, written = []\<rparr> =
     Some (Return (k_tree_followed, \<lparr>visited = {''/k'', ''/k/self'', ''/k/out'', ''/t'', ''/t/c''},
        written = [(OutFile, ''/k'' @ [CHR 0x0A]), (OutFile, glyph_mid),
          (OutFile, ''self -> /k [recursive, not followed]'' @ [CHR 0x0A]), (OutFile, glyph_last),
          (OutFile, ''out -> /t'' @ [CHR 0x0A]), (OutFile, ''    '' @ glyph_last),
          (OutFile, ''c'' @ [CHR 0x0A])]\<rparr>)) \<and>
   k_tree_followed \<noteq> k_tree \<and>
   nodes (nodes k_tree ! 1) = [] \<and>
   nodes (nodes k_tree_followed ! 1) = [Node (Some (a_file ''c'' 5)) ''/t/c'' 1 None []]"
  by code_simp

lemma Visit_records:
  assumes "Visit (Suc k) w opts n vp = Some (Return (n', vp', d, f))"
  shows "record_path w (path n) vp \<subseteq> vp'"
proof (cases "Stat (Fs opts) (path n)")
  case (Inl e)
  with assms show ?thesis by (simp add: Visit_stat_failed)
next
  case (Inr fi)
  note st = Inr
  show ?thesis
  proof (cases "IsDir fi")
    case False
    with assms st show ?thesis by (simp add: Visit_not_dir)
  next
    case True
    note dir = True
    show ?thesis
    proof (cases "DeepLevel opts > 0 \<and> DeepLevel opts \<le> depth n")
      case True
      with assms st dir show ?thesis by (simp add: Visit_depth_limit)
    next
      case False
      note nd = False
      show ?thesis
      proof (cases "ReadDir (Fs opts) (path n)")
        case (Inl e)
        with assms st dir nd show ?thesis by (simp add: Visit_readdir_failed)
      next
        case (Inr names)
        let ?loop = "visit_names (Visit k w opts) w opts
                            (Node (Some fi) (path n) (depth n) (err n) [])
                            names ([], record_path w (path n) vp, 0, 0)"
        note eq = Visit_dir[OF st dir nd Inr, of k w vp]
        from assms eq obtain r0 where r0: "?loop = Some r0"
          by (cases ?loop) simp_all
        have v: "\<exists>n'a vp' d f. r' = Return (n'a, vp', d, f) \<and>
                (err n'a = None \<longrightarrow> FileInfo n'a \<noteq> None) \<and> vp'' \<subseteq> vp'"
          if "Visit k w opts n' vp'' = Some r'" for n' vp'' r'
        proof -
          from Visit_Return[OF that] obtain n'a vp' d f where
            "r' = Return (n'a, vp', d, f)" "err n'a = None \<longrightarrow> FileInfo n'a \<noteq> None" "vp'' \<subseteq> vp'"
            by (elim exE conjE)
          then show ?thesis by (intro exI conjI)
        qed
        have "\<exists>ns' vp' dirs' files'. r0 = Return (ns', vp', dirs', files') \<and>
                record_path w (path n) vp \<subseteq> vp'"
          by (rule visit_names_Return[where visit="Visit k w opts" and w=w and opts=opts
                and node="Node (Some fi) (path n) (depth n) (err n) []" and names=names
                and ns="[]" and vp="record_path w (path n) vp" and dirs=0 and files=0 and r=r0,
                OF v r0])
        then obtain ns' vp'' dirs' files' where
          r0': "r0 = Return (ns', vp'', dirs', files')" "record_path w (path n) vp \<subseteq> vp''"
          by (elim exE conjE)
        from assms eq r0 r0'(1) have "vp' = vp''" by simp
        with r0'(2) show ?thesis by simp
      qed
    qed
  qed
qed

lemma symlink_step_visited:
  assumes "Mode fi AND ModeSymlink = ModeSymlink" "FollowLink opts"
    "Stat (Fs opts) (link_targetPath w node) = Inr tfi" "IsDir tfi"
    "filepath_Abs w (link_targetPath w node) = Some p"
    "link_display w opts node = Return vt"
    "filepath_Clean w p \<in> visited st"
  shows "symlink_step k w opts node fi name st =
           Some (Return (name @ '' -> '' @ vt @ '' [recursive, not followed]'', nodes node, st))"
  using assms by (simp add: symlink_step_def)

lemma symlink_step_follow:
  assumes "Mode fi AND ModeSymlink = ModeSymlink" "FollowLink opts"
    "Stat (Fs opts) (link_targetPath w node) = Inr tfi" "IsDir tfi"
    "filepath_Abs w (link_targetPath w node) = Some p"
    "link_display w opts node = Return vt"
    "filepath_Clean w p \<notin> visited st"
  shows "symlink_step k w opts node fi name st =
           (case Visit k w opts (Node (Some tfi) (link_targetPath w node) 0 None []) (visited st) of
              None \<Rightarrow> None
            | Some Panic \<Rightarrow> Some Panic
            | Some (Return (inf_node, vp, dirs, files)) \<Rightarrow>
                Some (Return (name @ '' -> '' @ vt, nodes inf_node, st\<lparr>visited := vp\<rparr>)))"
  using assms by (simp add: symlink_step_def split: option.splits outcome.splits)

lemma print_leaf_link:
  assumes e: "err node = None" and fi: "FileInfo node = Some fi" and nd: "\<not> IsDir fi"
    and ns: "nodes node = []"
    and pr: "file_props w opts fi = Return props"
    and dn: "display_name w opts node fi = Return name"
    and ss: "symlink_step k w opts node fi name
               (if length props > 0 then emit OutFile (''['' @ Join props '' '' @ '']  '') st else st)
             = Some (Return (name', [], st2))"
  shows "print (Suc k) w opts indent node st =
           Some (Return (node, emit OutFile (name' @ [CHR 0x0A]) st2))"
proof -
  obtain fi0 p d e0 ns0 where n: "node = Node fi0 p d e0 ns0" by (cases node) auto
  show ?thesis using assms n by (simp add: print.simps(2) Let_def)
qed

text \<open>
  The step of \<open>print\<close> for a symbolic link. Let a node's mode have the symlink bit,
  follow-symlinks be enabled, and the resolved target be a directory with absolute path
  \<open>p\<close>. If the cleaned \<open>p\<close> is among the visited paths, the name gets the suffix
  \<^verbatim>\<open> [recursive, not followed]\<close> and the node keeps its children; nothing is traversed,
  whatever the fuel. Otherwise a node for the target is traversed with the shared visited
  paths, its children become the node's children, and the cleaned \<open>p\<close> is among the visited
  paths afterwards. A directory that was traversed under a path with the same cleaned
  absolute form as \<open>p\<close> is among the visited paths, so a link back to it is not followed; the
  instance is \<^verbatim>\<open>/k\<close> with its link \<^verbatim>\<open>self\<close>.
\<close>

lemma symlink_step_cases:
  assumes link: "Mode fi AND ModeSymlink = ModeSymlink" and fl: "FollowLink opts"
    and tgt: "Stat (Fs opts) (link_targetPath w node) = Inr tfi" "IsDir tfi"
    and ab: "filepath_Abs w (link_targetPath w node) = Some p"
    and disp: "link_display w opts node = Return vt"
  shows
   "(filepath_Clean w p \<in> visited st \<longrightarrow>
       symlink_step k w opts node fi name st =
         Some (Return (name @ '' -> '' @ vt @ '' [recursive, not followed]'', nodes node, st))) \<and>
    (filepath_Clean w p \<notin> visited st \<longrightarrow>
       (Visit k w opts (Node (Some tfi) (link_targetPath w node) 0 None []) (visited st)
          = Some (Return (inf_node, vp, d, f)) \<longrightarrow>
        symlink_step k w opts node fi name st =
          Some (Return (name @ '' -> '' @ vt, nodes inf_node, st\<lparr>visited := vp\<rparr>)) \<and>
        filepath_Clean w p \<in> vp) \<and>
       (Visit k w opts (Node (Some tfi) (link_targetPath w node) 0 None []) (visited st) = None \<longrightarrow>
        symlink_step k w opts node fi name st = None)) \<and>
    (filepath_Clean w p \<in> visited st \<and> err node = None \<and> FileInfo node = Some fi \<and>
     \<not> IsDir fi \<and> nodes node = [] \<and> file_props w opts fi = Return props \<and>
     display_name w opts node fi = Return name \<longrightarrow>
       print (Suc j) w opts indent node st =
         Some (Return (node,
           emit OutFile (name @ '' -> '' @ vt @ '' [recursive, not followed]'' @ [CHR 0x0A])
             (if length props > 0 then emit OutFile (''['' @ Join props '' '' @ '']  '') st
              else st)))) \<and>
    (Visit (Suc i) w opts dir vpa = Some (Return (dir', vpb, db, fb)) \<and>
     filepath_Abs w (path dir) = Some q \<and> filepath_Clean w q = filepath_Clean w p \<and>
     vpb \<subseteq> visited st \<longrightarrow>
       filepath_Clean w p \<in> visited st)"
proof -
  note vis = symlink_step_visited[OF link fl tgt ab disp]
  note fol = symlink_step_follow[OF link fl tgt ab disp]
  have a: "symlink_step k w opts node fi name st =
         Some (Return (name @ '' -> '' @ vt @ '' [recursive, not followed]'', nodes node, st))"
    if "filepath_Clean w p \<in> visited st"
    using vis[OF that] .
  have b: "symlink_step k w opts node fi name st =
          Some (Return (name @ '' -> '' @ vt, nodes inf_node, st\<lparr>visited := vp\<rparr>)) \<and>
        filepath_Clean w p \<in> vp"
    if nv: "filepath_Clean w p \<notin> visited st"
      and v: "Visit k w opts (Node (Some tfi) (link_targetPath w node) 0 None []) (visited st)
          = Some (Return (inf_node, vp, d, f))"
  proof -
    from v obtain k' where k: "k = Suc k'" by (cases k) auto
    from Visit_records[OF v[unfolded k]] ab have "filepath_Clean w p \<in> vp"
      by (auto simp: record_path_def)
    then show ?thesis using fol[OF nv, of k name] v by simp
  qed
  have c: "symlink_step k w opts node fi name st = None"
    if nv: "filepath_Clean w p \<notin> visited st"
      and v: "Visit k w opts (Node (Some tfi) (link_targetPath w node) 0 None []) (visited st) = None"
    using fol[OF nv, of k name] v by simp
  have p: "print (Suc j) w opts indent node st =
         Some (Return (node,
           emit OutFile (name @ '' -> '' @ vt @ '' [recursive, not followed]'' @ [CHR 0x0A])
             (if length props > 0 then emit OutFile (''['' @ Join props '' '' @ '']  '') st
              else st)))"
    if h: "filepath_Clean w p \<in> visited st" "err node = None" "FileInfo node = Some fi"
     "\<not> IsDir fi" "nodes node = []" "file_props w opts fi = Return props"
     "display_name w opts node fi = Return name"
  proof -
    define st1 where
      "st1 = (if length props > 0 then emit OutFile (''['' @ Join props '' '' @ '']  '') st else st)"
    have m: "filepath_Clean w p \<in> visited st1" using h(1) by (simp add: st1_def)
    have "symlink_step j w opts node fi name st1
             = Some (Return (name @ '' -> '' @ vt @ '' [recursive, not followed]'', [], st1))"
      using vis[OF m, of j name] h(5) by simp
    from print_leaf_link[OF h(2,3,4,5,6,7) this[unfolded st1_def], of indent] show ?thesis by simp
  qed
  have s: "filepath_Clean w p \<in> visited st"
    if "Visit (Suc i) w opts dir vpa = Some (Return (dir', vpb, db, fb))"
      "filepath_Abs w (path dir) = Some q" "filepath_Clean w q = filepath_Clean w p"
      "vpb \<subseteq> visited st"
    using Visit_records[OF that(1)] that(2,3,4) by (auto simp: record_path_def)
  from a b c p s show ?thesis by blast
qed

lemma symlink_step_cases_k:
  "Visit 2 demo_world follow_opts (New ''/k'') {} =
     Some (Return (k_tree, {''/k'', ''/k/self'', ''/k/out''}, 1, 2)) \<and>
   ''/k'' \<in> visited k_state \<and>
   symlink_step 0 demo_world follow_opts self_node (a_link ''self'') ''self'' k_state =
     Some (Return (''self -> /k [recursive, not followed]'', [], k_state)) \<and>
   print 1 demo_world follow_opts ''    '' self_node k_state =
     Some (Return (self_node,
       emit OutFile (''self -> /k [recursive, not followed]'' @ [CHR 0x0A]) k_state)) \<and>
   ''/t'' \<notin> visited k_state \<and>
   symlink_step 2 demo_world follow_opts out_node (a_link ''out'') ''out'' k_state =
     Some (Return (''out -> /t'', [Node (Some (a_file ''c'' 5)) ''/t/c'' 1 None []],
       k_state\<lparr>visited := {''/k'', ''/k/self'', ''/k/out'', ''/t'', ''/t/c''}\<rparr>)) \<and>
   ''/t'' \<in> {''/k'', ''/k/self'', ''/k/out'', ''/t'', ''/t/c''}"
proof -
  have l1: "Mode (a_link ''self'') AND ModeSymlink = ModeSymlink" by code_simp
  have l2: "Mode (a_link ''out'') AND ModeSymlink = ModeSymlink" by code_simp
  have fl: "FollowLink follow_opts" by code_simp
  have s1: "Stat (Fs follow_opts) (link_targetPath demo_world self_node) = Inr (a_dir ''k'')"
    by code_simp
  have s2: "Stat (Fs follow_opts) (link_targetPath demo_world out_node) = Inr (a_dir ''t'')"
    by code_simp
  have d1: "IsDir (a_dir ''k'')" by code_simp
  have d2: "IsDir (a_dir ''t'')" by code_simp
  have a1: "filepath_Abs demo_world (link_targetPath demo_world self_node) = Some ''/k''"
    by code_simp
  have a2: "filepath_Abs demo_world (link_targetPath demo_world out_node) = Some ''/t''"
    by code_simp
  have v1: "link_display demo_world follow_opts self_node = Return ''/k''" by code_simp
  have v2: "link_display demo_world follow_opts out_node = Return ''/t''" by code_simp
  have c: "filepath_Clean demo_world ''/k'' = ''/k''" "filepath_Clean demo_world ''/t'' = ''/t''"
    by code_simp+
  have in1: "''/k'' \<in> visited k_state" by code_simp
  have in2: "''/t'' \<notin> visited k_state" by code_simp
  have vk: "Visit 2 demo_world follow_opts (New ''/k'') {} =
     Some (Return (k_tree, {''/k'', ''/k/self'', ''/k/out''}, 1, 2))" by code_simp
  have vt: "Visit 2 demo_world follow_opts
              (Node (Some (a_dir ''t'')) (link_targetPath demo_world out_node) 0 None [])
              (visited k_state) =
     Some (Return (t_tree, {''/k'', ''/k/self'', ''/k/out'', ''/t'', ''/t/c''}, 1, 1))"
    by code_simp
  have leaf: "err self_node = None" "FileInfo self_node = Some (a_link ''self'')"
    "\<not> IsDir (a_link ''self'')" "nodes self_node = []"
    "file_props demo_world follow_opts (a_link ''self'') = Return []"
    "display_name demo_world follow_opts self_node (a_link ''self'') = Return ''self''"
    by code_simp+
  have nt: "nodes t_tree = [Node (Some (a_file ''c'' 5)) ''/t/c'' 1 None []]" by code_simp
  have pk: "path (New ''/k'') = ''/k''" "filepath_Abs demo_world ''/k'' = Some ''/k''"
    "{''/k'', ''/k/self'', ''/k/out''} \<subseteq> visited k_state" by code_simp+
  note A = symlink_step_cases[OF l1 fl s1 d1 a1 v1, unfolded c,
      where st=k_state and k=0 and name="''self''" and j=0 and indent="''    ''"
        and props="[]" and i=1 and dir="New ''/k''" and vpa="{}" and dir'=k_tree
        and vpb="{''/k'', ''/k/self'', ''/k/out''}" and db=1 and fb=2 and q="''/k''"]
  note B = symlink_step_cases[OF l2 fl s2 d2 a2 v2, unfolded c,
      where st=k_state and k=2 and name="''out''" and inf_node=t_tree
        and vp="{''/k'', ''/k/self'', ''/k/out'', ''/t'', ''/t/c''}" and d=1 and f=1]
  have r1: "symlink_step 0 demo_world follow_opts self_node (a_link ''self'') ''self'' k_state =
     Some (Return (''self -> /k [recursive, not followed]'', [], k_state))"
    using A[THEN conjunct1, THEN mp, OF in1] leaf(4) by simp
  have r2: "print 1 demo_world follow_opts ''    '' self_node k_state =
     Some (Return (self_node,
       emit OutFile (''self -> /k [recursive, not followed]'' @ [CHR 0x0A]) k_state))"
    using A[THEN conjunct2, THEN conjunct2, THEN conjunct1, THEN mp] in1 leaf by simp
  have r3: "''/k'' \<in> visited k_state"
    using A[THEN conjunct2, THEN conjunct2, THEN conjunct2, THEN mp] vk pk c by simp
  have r4: "symlink_step 2 demo_world follow_opts out_node (a_link ''out'') ''out'' k_state =
     Some (Return (''out -> /t'', [Node (Some (a_file ''c'' 5)) ''/t/c'' 1 None []],
       k_state\<lparr>visited := {''/k'', ''/k/self'', ''/k/out'', ''/t'', ''/t/c''}\<rparr>)) \<and>
   ''/t'' \<in> {''/k'', ''/k/self'', ''/k/out'', ''/t'', ''/t/c''}"
    using B[THEN conjunct2, THEN conjunct1, THEN mp, OF in2, THEN conjunct1, THEN mp, OF vt] nt
    by simp
  from vk r1 r2 r3 in2 r4 show ?thesis by (intro conjI) simp_all
qed

text \<open>
  Claim C2 says that a directory holding a link back to itself renders the link exactly
  once. \<open>print\<close> looks up the path \<^verbatim>\<open>filepath.EvalSymlinks\<close> resolved, and \<open>Visit\<close> records
  the cleaned absolute path of the node, in which symbolic links are not resolved. For the
  directory \<^verbatim>\<open>/v/A\<close>, reached through the link \<^verbatim>\<open>/v\<close> to \<^verbatim>\<open>/w\<close>, the two differ: the link
  \<^verbatim>\<open>L\<close> back to the directory is followed once, and rendered twice.
\<close>

theorem follow_symlink_ancestor:
  "Visit 2 demo_world follow_opts (New ''/v/A'') {} =
     Some (Return (va_tree, {''/v/A'', ''/v/A/L''}, 1, 1)) \<and>
   os_Readlink demo_world ''/v/A/L'' = Some ''/w/A'' \<and>
   filepath_EvalSymlinks demo_world ''/v/A'' = Some ''/w/A'' \<and>
   filepath_EvalSymlinks demo_world ''/v/A/L'' = Some ''/w/A'' \<and>
   Print 5 demo_world follow_opts va_tree \<lparr>visited = {''/v/A'', ''/v/A/L''}, written = []\<rparr> =
     Some (Return (va_tree_followed,
       \<lparr>visited = {''/v/A'', ''/v/A/L'', ''/w/A'', ''/w/A/L''},
        written = [(OutFile, ''/v/A'' @ [CHR 0x0A]), (OutFile, glyph_last),
          (OutFile, ''L -> /w/A'' @ [CHR 0x0A]), (OutFile, ''    '' @ glyph_last),
          (OutFile, ''L -> /w/A [recursive, not followed]'' @ [CHR 0x0A])]\<rparr>))"
  by code_simp


end
